theory Spec2Isabelle
  imports Main
begin

section \<open>The game engine of src/App.tsx\<close>

text \<open>
  The engine is the block of src/App.tsx between the markers GAME ENGINE and AUDIO SYSTEM
  (the same text stands in the second copy of the file), together with the two callbacks
  \<open>handleMove\<close> and \<open>handleUndo\<close> of the component, which own the history stack.

  JavaScript numbers are modelled as \<open>int\<close>: every number the engine computes is an
  integer (grid coordinates, a tile value doubled, a score summed). An optional boolean
  field is a \<open>bool option\<close>, \<open>None\<close> standing for an absent property. The identifier
  \<open>`tile-${n}`\<close> of a tile is modelled by the number \<open>n\<close> it is printed from.
\<close>

subsection \<open>Types\<close>

datatype Direction = Up | Down | Left | Right

record Tile =
  ident :: nat
  val :: int
  row :: int
  col :: int
  isNew :: "bool option"
  justMerged :: "bool option"

record GameState =
  tiles :: "Tile list"
  score :: int
  moves :: int
  comboCount :: int
  gameOver :: bool
  won :: bool

record GameEngine =
  state :: GameState
  history :: "GameState list"
  undosRemaining :: int
  highScore :: int

text \<open>
  The parameter \<open>size\<close> of the source is written \<open>sz\<close>, and the fields \<open>id\<close> and
  \<open>value\<close> of a tile \<open>ident\<close> and \<open>val\<close>.

  A position or a direction vector \<open>{row, col}\<close> is a pair. A tile object is shared
  between the array \<open>engine.state.tiles\<close> and the grid, and \<open>move\<close> compares tile objects
  by identity (\<open>indexOf\<close>) and mutates them in place (\<open>moveTile\<close>). So inside \<open>move\<close> the
  tile objects live in a store, a list of tiles, and a reference is an index of the store;
  the tiles array and the grid hold references.
\<close>

type_synonym pos = "int \<times> int"
type_synonym ref = nat
type_synonym grid = "pos \<rightharpoonup> ref"

subsection \<open>Grid construction\<close>

definition createEmptyState :: GameState where
  "createEmptyState =
     \<lparr>tiles = [], score = 0, moves = 0, comboCount = 0, gameOver = False, won = False\<rparr>"

text \<open>
  \<open>buildGrid\<close> makes \<open>sz\<close> rows and stores every tile of the array at
  \<open>grid[tile.row][tile.col]\<close>, a later tile overwriting an earlier one. The array is
  walked with its running index, which is the reference of the tile object. When
  \<open>tile.row\<close> is not the index of a row, \<open>grid[tile.row]\<close> is \<open>undefined\<close> and the store
  into it throws a TypeError: the result \<open>None\<close>. A column outside the row only adds a
  property that no loop reads.
\<close>

fun buildGridFrom :: "ref \<Rightarrow> Tile list \<Rightarrow> nat \<Rightarrow> grid \<Rightarrow> grid option" where
  "buildGridFrom i [] sz g = Some g"
| "buildGridFrom i (tile # rest) sz g =
     (if 0 \<le> row tile \<and> row tile < int sz
      then buildGridFrom (Suc i) rest sz (g((row tile, col tile) \<mapsto> i))
      else None)"

definition buildGrid :: "Tile list \<Rightarrow> nat \<Rightarrow> grid option" where
  "buildGrid ts sz = buildGridFrom 0 ts sz Map.empty"

fun getVector :: "Direction \<Rightarrow> pos" where
  "getVector Up = (-1, 0)"
| "getVector Down = (1, 0)"
| "getVector Left = (0, -1)"
| "getVector Right = (0, 1)"

text \<open>\<open>getTraversals\<close> returns the pair \<open>(rows, cols)\<close>.\<close>

definition getTraversals :: "Direction \<Rightarrow> nat \<Rightarrow> int list \<times> int list" where
  "getTraversals direction sz =
     (let rows = map int [0..<sz];
          cols = map int [0..<sz]
      in (if direction = Down then rev rows else rows,
          if direction = Right then rev cols else cols))"

subsection \<open>The farthest-position search\<close>

text \<open>
  The loop \<open>while (true)\<close> of \<open>findFarthestPosition\<close>, with \<open>previous\<close> as its variable.
  It returns \<open>(farthest, next)\<close>, where \<open>next\<close> is \<open>None\<close> for \<open>null\<close>. A run that never
  leaves the loop has the value \<open>None\<close>.
\<close>

partial_function (option) findFarthestPosition ::
  "pos \<Rightarrow> pos \<Rightarrow> grid \<Rightarrow> nat \<Rightarrow> (pos \<times> pos option) option" where
  "findFarthestPosition previous vector g sz =
     (if fst previous + fst vector < 0 \<or> fst previous + fst vector \<ge> int sz
         \<or> snd previous + snd vector < 0 \<or> snd previous + snd vector \<ge> int sz
      then Some (previous, None)
      else if g (fst previous + fst vector, snd previous + snd vector) \<noteq> None
      then Some (previous, Some (fst previous + fst vector, snd previous + snd vector))
      else findFarthestPosition
             (fst previous + fst vector, snd previous + snd vector) vector g sz)"

declare findFarthestPosition.simps [code]

subsection \<open>The scan of \<open>move\<close>\<close>

text \<open>
  The variables the two nested loops of \<open>move\<close> read and write: the store of tile
  objects, the array \<open>engine.state.tiles\<close> (of references), the grid, the set
  \<open>mergedPositions\<close> (the key \<open>`${row},${col}`\<close> is the pair), the fields \<open>score\<close>,
  \<open>comboCount\<close> and \<open>won\<close> of \<open>engine.state\<close>, and the flag \<open>moved\<close>.
\<close>

record MoveVars =
  store :: "Tile list"
  stateTiles :: "ref list"
  cells :: grid
  mergedPositions :: "pos set"
  stateScore :: int
  stateComboCount :: int
  stateWon :: bool
  moved :: bool

text \<open>\<open>indexOf\<close> returns \<open>None\<close> for \<open>-1\<close>; \<open>splice1 xs idx\<close> is \<open>xs.splice(idx, 1)\<close>.\<close>

fun indexOf :: "'a list \<Rightarrow> 'a \<Rightarrow> nat option" where
  "indexOf [] x = None"
| "indexOf (y # ys) x =
     (if y = x then Some 0 else map_option Suc (indexOf ys x))"

definition splice1 :: "'a list \<Rightarrow> nat \<Rightarrow> 'a list" where
  "splice1 xs idx = take idx xs @ drop (Suc idx) xs"

text \<open>
  \<open>moveTile\<close> clears the cell the tile object says it is in, rewrites the object's
  position and stores the tile in the new cell. The grid has \<open>sz\<close> rows: a store into a
  row that does not exist throws (\<open>None\<close>).
\<close>

definition moveTile :: "ref \<Rightarrow> pos \<Rightarrow> nat \<Rightarrow> MoveVars \<Rightarrow> MoveVars option" where
  "moveTile tile position sz v =
     (let t = store v ! tile in
      if \<not> (0 \<le> row t \<and> row t < int sz) then None
      else if \<not> (0 \<le> fst position \<and> fst position < int sz) then None
      else Some (v\<lparr>store := (store v)[tile := t\<lparr>row := fst position, col := snd position\<rparr>],
                   cells := ((cells v)((row t, col t) := None))(position \<mapsto> tile)\<rparr>))"

text \<open>
  The two \<open>else\<close> branches of the loop body are the same statements: move the tile to
  the farthest position, and set \<open>moved\<close> when that is another cell.
\<close>

definition slideTile :: "ref \<Rightarrow> pos \<Rightarrow> pos \<Rightarrow> nat \<Rightarrow> MoveVars \<Rightarrow> MoveVars option" where
  "slideTile tile farthest cell sz v =
     (case moveTile tile farthest sz v of
        None \<Rightarrow> None
      | Some v' \<Rightarrow>
          Some (if fst farthest \<noteq> fst cell \<or> snd farthest \<noteq> snd cell
                then v'\<lparr>moved := True\<rparr> else v'))"

text \<open>
  The merge branch. The object \<open>merged\<close> is new: it is appended to the store, and its
  reference is the length of the store before.
\<close>

definition mergeTiles :: "ref \<Rightarrow> ref \<Rightarrow> pos \<Rightarrow> MoveVars \<Rightarrow> MoveVars" where
  "mergeTiles tile nextTile next v =
     (let merged = \<lparr>ident = ident (store v ! nextTile), val = val (store v ! tile) * 2,
                     row = fst next, col = snd next, isNew = None, justMerged = Some True\<rparr>;
          mergedRef = length (store v);
          tiles1 = (case indexOf (stateTiles v) tile of
                      None \<Rightarrow> stateTiles v
                    | Some idx \<Rightarrow> splice1 (stateTiles v) idx);
          tiles2 = (case indexOf tiles1 nextTile of
                      None \<Rightarrow> tiles1
                    | Some nextIdx \<Rightarrow> tiles1[nextIdx := mergedRef])
      in v\<lparr>store := store v @ [merged],
            stateTiles := tiles2,
            cells := (cells v)(next \<mapsto> mergedRef),
            mergedPositions := insert next (mergedPositions v),
            stateScore := stateScore v + val merged,
            stateComboCount := stateComboCount v + 1,
            stateWon := (if val merged = 2048 \<and> \<not> stateWon v then True else stateWon v),
            moved := True\<rparr>)"

text \<open>The body of the inner loop, for the cell \<open>(row, col)\<close>.\<close>

definition moveCell :: "pos \<Rightarrow> nat \<Rightarrow> pos \<Rightarrow> MoveVars \<Rightarrow> MoveVars option" where
  "moveCell vector sz cell v =
     (case cells v cell of
        None \<Rightarrow> Some v
      | Some tile \<Rightarrow>
          (case findFarthestPosition cell vector (cells v) sz of
             None \<Rightarrow> None
           | Some (farthest, None) \<Rightarrow> slideTile tile farthest cell sz v
           | Some (farthest, Some next) \<Rightarrow>
               (case cells v next of
                  None \<Rightarrow> slideTile tile farthest cell sz v
                | Some nextTile \<Rightarrow>
                    if val (store v ! nextTile) = val (store v ! tile)
                       \<and> next \<notin> mergedPositions v
                    then Some (mergeTiles tile nextTile next v)
                    else slideTile tile farthest cell sz v)))"

fun moveCells :: "pos \<Rightarrow> nat \<Rightarrow> pos list \<Rightarrow> MoveVars \<Rightarrow> MoveVars option" where
  "moveCells vector sz [] v = Some v"
| "moveCells vector sz (cell # rest) v =
     (case moveCell vector sz cell v of
        None \<Rightarrow> None
      | Some v' \<Rightarrow> moveCells vector sz rest v')"

text \<open>The cells in the order the nested loops visit them.\<close>

definition traversalCells :: "int list \<times> int list \<Rightarrow> pos list" where
  "traversalCells traversals =
     concat (map (\<lambda>r. map (\<lambda>c. (r, c)) (snd traversals)) (fst traversals))"

text \<open>
  The first part of \<open>move\<close>, up to the end of the loops: the flags of every tile are
  cleared, the grid is built, \<open>comboCount\<close> is reset and the cells are scanned. The tile
  objects of the array become the store, the tile at index \<open>i\<close> having the reference \<open>i\<close>:
  the elements of the array are distinct objects, each made by an object literal of
  \<open>spawnTile\<close> or \<open>move\<close>, or by \<open>JSON.parse\<close>.
\<close>

definition clearFlags :: "Tile \<Rightarrow> Tile" where
  "clearFlags t = t\<lparr>justMerged := Some False, isNew := Some False\<rparr>"

definition moveScan :: "GameState \<Rightarrow> Direction \<Rightarrow> nat \<Rightarrow> MoveVars option" where
  "moveScan s direction sz =
     (let ts = map clearFlags (tiles s) in
      case buildGrid ts sz of
        None \<Rightarrow> None
      | Some g \<Rightarrow>
          moveCells (getVector direction) sz
            (traversalCells (getTraversals direction sz))
            \<lparr>store = ts, stateTiles = [0..<length ts], cells = g, mergedPositions = {},
             stateScore = score s, stateComboCount = 0, stateWon = won s,
             moved = False\<rparr>)"

text \<open>The game state the scan leaves in \<open>engine.state\<close>.\<close>

definition scannedState :: "GameState \<Rightarrow> MoveVars \<Rightarrow> GameState" where
  "scannedState s v =
     s\<lparr>tiles := map (\<lambda>r. store v ! r) (stateTiles v),
       score := stateScore v,
       comboCount := stateComboCount v,
       won := stateWon v\<rparr>"

subsection \<open>Spawning and the detector of available moves\<close>

text \<open>The pairs \<open>(row, col)\<close> in the order of the two ascending \<open>for\<close> loops.\<close>

definition allCells :: "nat \<Rightarrow> pos list" where
  "allCells sz = concat (map (\<lambda>r. map (\<lambda>c. (r, c)) (map int [0..<sz])) (map int [0..<sz]))"

definition emptyCells :: "GameState \<Rightarrow> nat \<Rightarrow> pos list" where
  "emptyCells s sz =
     filter (\<lambda>cell. \<not> list_ex (\<lambda>t. row t = fst cell \<and> col t = snd cell) (tiles s))
       (allCells sz)"

text \<open>
  \<open>spawnTile\<close> draws two random numbers. \<open>Math.floor(Math.random() * n)\<close> is some index
  below \<open>n\<close>: the model takes a number \<open>pick\<close> and uses \<open>pick mod n\<close>. The test
  \<open>Math.random() < 0.9\<close> is the boolean \<open>small\<close>. The counter \<open>nextId\<close> of the module is
  passed in and returned.
\<close>

definition spawnTile :: "GameState \<Rightarrow> nat \<Rightarrow> nat \<Rightarrow> nat \<Rightarrow> bool \<Rightarrow> GameState \<times> nat" where
  "spawnTile s sz nextId pick small =
     (let empties = emptyCells s sz in
      if length empties = 0 then (s, nextId)
      else
        let cell = empties ! (pick mod length empties);
            v = (if small then 2 else 4)
        in (s\<lparr>tiles := tiles s @
                 [\<lparr>ident = nextId, val = v, row = fst cell, col = snd cell,
                   isNew = Some True, justMerged = None\<rparr>]\<rparr>,
            Suc nextId))"

text \<open>
  The scan of \<open>checkAvailableMoves\<close>, with its early returns. \<open>grid[row][col + 1]?.value\<close>
  is \<open>undefined\<close> on an empty cell, which is not equal to a number.
\<close>

fun checkCells :: "Tile list \<Rightarrow> grid \<Rightarrow> nat \<Rightarrow> pos list \<Rightarrow> bool" where
  "checkCells ts g sz [] = False"
| "checkCells ts g sz (cell # rest) =
     (case g cell of
        None \<Rightarrow> True
      | Some tile \<Rightarrow>
          if snd cell < int sz - 1
             \<and> map_option (\<lambda>r. val (ts ! r)) (g (fst cell, snd cell + 1)) = Some (val (ts ! tile))
          then True
          else if fst cell < int sz - 1
             \<and> map_option (\<lambda>r. val (ts ! r)) (g (fst cell + 1, snd cell)) = Some (val (ts ! tile))
          then True
          else checkCells ts g sz rest)"

definition checkAvailableMoves :: "GameState \<Rightarrow> nat \<Rightarrow> bool option" where
  "checkAvailableMoves s sz =
     (case buildGrid (tiles s) sz of
        None \<Rightarrow> None
      | Some g \<Rightarrow> Some (checkCells (tiles s) g sz (allCells sz)))"

subsection \<open>\<open>initGame\<close>, \<open>move\<close>, \<open>handleMove\<close> and \<open>handleUndo\<close>\<close>

text \<open>
  \<open>initGame\<close> resets \<open>nextId\<close>, spawns two tiles and reads the high score from the local
  storage (the parameter \<open>saved\<close>). It returns the engine and the counter. (When the read
  throws there is no engine; a game starts with the engine of a call that returned.)
\<close>

definition initGame ::
  "nat \<Rightarrow> nat \<Rightarrow> bool \<Rightarrow> nat \<Rightarrow> bool \<Rightarrow> int \<Rightarrow> GameEngine \<times> nat" where
  "initGame sz pick1 small1 pick2 small2 saved =
     (let (s1, n1) = spawnTile createEmptyState sz 0 pick1 small1;
          (s2, n2) = spawnTile s1 sz n1 pick2 small2
      in (\<lparr>state = s2, history = [], undosRemaining = 3, highScore = saved\<rparr>, n2))"

text \<open>
  \<open>move\<close> calls the local storage of the browser: \<open>saveHighScore\<close> when the score passes
  the high score, and \<open>loadStats\<close> and \<open>saveStats\<close> when no move is left. None of the
  calls is inside a \<open>try\<close>, so an exception of the storage leaves \<open>move\<close> at the call,
  with the engine as it has been mutated so far. What the storage holds does not change
  the engine; what matters is which call throws. That is the environment of a call of
  \<open>move\<close>:
  \<^item> \<open>saveHighScoreThrows\<close>: \<open>localStorage.setItem\<close> throws in \<open>saveHighScore\<close>;
  \<^item> \<open>loadStatsThrows\<close>: the statements from \<open>loadStats()\<close> to the last update of
    \<open>stats\<close> throw (\<open>getItem\<close> throws, \<open>JSON.parse\<close> rejects the stored text, or the
    stored value is \<open>null\<close> or a number and \<open>stats.gamesPlayed++\<close> throws);
  \<^item> \<open>saveStatsThrows\<close>: \<open>localStorage.setItem\<close> throws in \<open>saveStats\<close>.
\<close>

record Storage =
  saveHighScoreThrows :: bool
  loadStatsThrows :: bool
  saveStatsThrows :: bool

datatype error = StorageError

text \<open>
  \<open>move\<close> mutates the engine in place. The model returns how the call ends (\<open>Inr moved\<close>
  when it returns \<open>moved\<close>, \<open>Inl StorageError\<close> when a call of the storage throws), the
  engine as the call leaves it, and the counter \<open>nextId\<close>. The result \<open>None\<close> stands for a
  call that does not come that far: the grid throws a TypeError on a tile outside the
  rows, or the search never ends.
\<close>

definition move ::
  "GameEngine \<Rightarrow> Direction \<Rightarrow> nat \<Rightarrow> nat \<Rightarrow> nat \<Rightarrow> bool \<Rightarrow> Storage \<Rightarrow>
     ((error + bool) \<times> GameEngine \<times> nat) option" where
  "move engine direction sz nextId pick small storage =
     (case moveScan (state engine) direction sz of
        None \<Rightarrow> None
      | Some v \<Rightarrow>
          let s1 = scannedState (state engine) v in
          if moved v then
            let (s2, nextId') = spawnTile (s1\<lparr>moves := moves s1 + 1\<rparr>) sz nextId pick small;
                improved = (score s2 > highScore engine);
                engine2 = engine\<lparr>state := s2,
                                 highScore := (if improved then score s2 else highScore engine)\<rparr>
            in if improved \<and> saveHighScoreThrows storage
               then Some (Inl StorageError, engine2, nextId')
               else
                 (case checkAvailableMoves s2 sz of
                    None \<Rightarrow> None
                  | Some availableMoves \<Rightarrow>
                      if \<not> availableMoves then
                        let engine3 = engine2\<lparr>state := s2\<lparr>gameOver := True\<rparr>\<rparr> in
                        if loadStatsThrows storage \<or> saveStatsThrows storage
                        then Some (Inl StorageError, engine3, nextId')
                        else Some (Inr True, engine3, nextId')
                      else Some (Inr True, engine2, nextId'))
          else Some (Inr False, engine\<lparr>state := s1\<rparr>, nextId))"

text \<open>
  \<open>handleMove\<close> copies the state with \<open>JSON.parse(JSON.stringify(engine.state))\<close> before the
  call of \<open>move\<close>; the copy of a record of integers, booleans and absent properties is the
  record itself. An exception of \<open>move\<close> leaves \<open>handleMove\<close> too, before the push on the
  history. The model returns the exception, if any, the engine and the counter. The
  effects on sound, particles and haptics are left out (they do not touch the engine;
  the haptic call catches its exceptions and the audio calls return at once without an
  audio context, so they are taken to return), and so is the test of the second
  copy of the file that drops a command arriving within 180 ms of the last one (a
  dropped command leaves the engine as it is).
\<close>

definition handleMove ::
  "GameEngine \<Rightarrow> Direction \<Rightarrow> nat \<Rightarrow> nat \<Rightarrow> nat \<Rightarrow> bool \<Rightarrow> Storage \<Rightarrow>
     (error option \<times> GameEngine \<times> nat) option" where
  "handleMove engine direction sz nextId pick small storage =
     (if gameOver (state engine) then Some (None, engine, nextId)
      else
        let oldState = state engine in
        case move engine direction sz nextId pick small storage of
          None \<Rightarrow> None
        | Some (Inl err, engine', nextId') \<Rightarrow> Some (Some err, engine', nextId')
        | Some (Inr wasMoved, engine', nextId') \<Rightarrow>
            if wasMoved then
              let pushed = history engine' @ [oldState];
                  kept = (if length pushed > 10 then tl pushed else pushed)
              in Some (None, engine'\<lparr>history := kept\<rparr>, nextId')
            else Some (None, engine', nextId'))"

definition handleUndo :: "GameEngine \<Rightarrow> GameEngine" where
  "handleUndo engine =
     (if undosRemaining engine > 0 \<and> length (history engine) > 0
      then engine\<lparr>state := last (history engine),
                  history := butlast (history engine),
                  undosRemaining := undosRemaining engine - 1\<rparr>
      else engine)"

text \<open>
  The state \<open>move\<close> has reached when its loops end, before the test \<open>if (moved)\<close>: the
  flag \<open>moved\<close> and the game state without a spawned tile.
\<close>

definition scanOutcome :: "GameState \<Rightarrow> Direction \<Rightarrow> nat \<Rightarrow> (bool \<times> GameState) option" where
  "scanOutcome s direction sz =
     map_option (\<lambda>v. (moved v, scannedState s v)) (moveScan s direction sz)"

subsection \<open>Predicates on boards\<close>

text \<open>
  A cell is inside the grid of \<open>sz\<close> rows and columns. A state is valid when every tile is
  inside the grid and no two tiles have the same cell. \<open>ahead d p\<close> is the cell next to
  \<open>p\<close> in the direction \<open>d\<close>. In a state where \<open>cannotMove\<close> holds for a direction, the
  cell ahead of every tile is outside the grid or holds a tile of another value: no tile
  can slide and none can merge.
\<close>

definition inBounds :: "nat \<Rightarrow> pos \<Rightarrow> bool" where
  "inBounds sz p \<longleftrightarrow> 0 \<le> fst p \<and> fst p < int sz \<and> 0 \<le> snd p \<and> snd p < int sz"

definition position :: "Tile \<Rightarrow> pos" where
  "position t = (row t, col t)"

definition validState :: "nat \<Rightarrow> GameState \<Rightarrow> bool" where
  "validState sz s \<longleftrightarrow>
     list_all (\<lambda>t. inBounds sz (position t)) (tiles s) \<and> distinct (map position (tiles s))"

definition ahead :: "Direction \<Rightarrow> pos \<Rightarrow> pos" where
  "ahead d p = (fst p + fst (getVector d), snd p + snd (getVector d))"

definition cannotMove :: "nat \<Rightarrow> Direction \<Rightarrow> GameState \<Rightarrow> bool" where
  "cannotMove sz d s \<longleftrightarrow>
     list_all (\<lambda>t. \<not> inBounds sz (ahead d (position t))
                  \<or> list_ex (\<lambda>u. position u = ahead d (position t) \<and> val u \<noteq> val t) (tiles s))
       (tiles s)"

text \<open>What a call of \<open>move\<close> that moves nothing leaves of a state.\<close>

definition rejectedState :: "GameState \<Rightarrow> GameState" where
  "rejectedState s = s\<lparr>tiles := map clearFlags (tiles s), comboCount := 0\<rparr>"

subsection \<open>The invariant of the scan, and reachable engines\<close>

text \<open>
  During the scan the grid is sound when every entry refers to an object of the store
  that carries the position of the entry, inside the grid. The tiles are placed when the
  references of \<open>engine.state.tiles\<close> are distinct and each is in the grid at the position
  its object carries. (The grid may hold more: the merge branch leaves the moving tile
  in its cell.)
\<close>

definition gridSound :: "nat \<Rightarrow> MoveVars \<Rightarrow> bool" where
  "gridSound sz v \<longleftrightarrow>
     (\<forall>p r. cells v p = Some r \<longrightarrow>
        r < length (store v) \<and> position (store v ! r) = p \<and> inBounds sz p)"

definition tilesPlaced :: "MoveVars \<Rightarrow> bool" where
  "tilesPlaced v \<longleftrightarrow>
     distinct (stateTiles v) \<and>
     (\<forall>r \<in> set (stateTiles v). r < length (store v) \<and> cells v (position (store v ! r)) = Some r)"

definition scanInv :: "nat \<Rightarrow> MoveVars \<Rightarrow> bool" where
  "scanInv sz v \<longleftrightarrow> gridSound sz v \<and> tilesPlaced v"

text \<open>The number of steps the search can still make from a position in a direction.\<close>

fun reach :: "Direction \<Rightarrow> nat \<Rightarrow> pos \<Rightarrow> nat" where
  "reach Up sz p = nat (fst p)"
| "reach Down sz p = nat (int sz - fst p)"
| "reach Left sz p = nat (snd p)"
| "reach Right sz p = nat (int sz - snd p)"

text \<open>
  An engine is valid when its state and every snapshot of its history are valid. The
  engines reachable in a game of size \<open>sz\<close>, each with the value of \<open>nextId\<close>: the fresh
  engine, and what \<open>handleMove\<close>, a bare \<open>move\<close>, a spawn or \<open>handleUndo\<close> make of a
  reachable engine, whatever the storage does: the engine a call leaves when the storage
  throws is reachable too.
\<close>

definition engineValid :: "nat \<Rightarrow> GameEngine \<Rightarrow> bool" where
  "engineValid sz e \<longleftrightarrow> validState sz (state e) \<and> list_all (validState sz) (history e)"

inductive reachable :: "nat \<Rightarrow> GameEngine \<times> nat \<Rightarrow> bool" for sz :: nat where
  fresh: "reachable sz (initGame sz pick1 small1 pick2 small2 saved)"
| handled: "reachable sz (e, n) \<Longrightarrow> handleMove e d sz n pick small st = Some (x, e', n') \<Longrightarrow>
            reachable sz (e', n')"
| moved: "reachable sz (e, n) \<Longrightarrow> move e d sz n pick small st = Some (r, e', n') \<Longrightarrow>
          reachable sz (e', n')"
| spawned: "reachable sz (e, n) \<Longrightarrow> spawnTile (state e) sz n pick small = (s', n') \<Longrightarrow>
            reachable sz (e\<lparr>state := s'\<rparr>, n')"
| undone: "reachable sz (e, n) \<Longrightarrow> reachable sz (handleUndo e, n)"

subsection \<open>Merged tiles, full boards\<close>



text \<open>
  A board is full when every cell of the grid holds a tile. Two cells are adjacent when
  they are next to each other in a row or in a column.
\<close>

definition occupied :: "GameState \<Rightarrow> pos \<Rightarrow> bool" where
  "occupied s p \<longleftrightarrow> list_ex (\<lambda>t. position t = p) (tiles s)"

definition boardFull :: "nat \<Rightarrow> GameState \<Rightarrow> bool" where
  "boardFull sz s \<longleftrightarrow> list_all (occupied s) (allCells sz)"

definition adjacent :: "pos \<Rightarrow> pos \<Rightarrow> bool" where
  "adjacent p q \<longleftrightarrow>
     (fst p = fst q \<and> (snd q = snd p + 1 \<or> snd p = snd q + 1)) \<or>
     (snd p = snd q \<and> (fst q = fst p + 1 \<or> fst p = fst q + 1))"

definition noEqualNeighbours :: "GameState \<Rightarrow> bool" where
  "noEqualNeighbours s \<longleftrightarrow>
     list_all (\<lambda>t. list_all (\<lambda>u. adjacent (position t) (position u) \<longrightarrow> val t \<noteq> val u)
                 (tiles s)) (tiles s)"

text \<open>
  What holds of \<open>gameOver\<close> in a game: it is set only on a full board without equal
  neighbours, and no snapshot of the history has it.
\<close>

definition gameOverSound :: "nat \<Rightarrow> GameEngine \<Rightarrow> bool" where
  "gameOverSound sz e \<longleftrightarrow>
     (gameOver (state e) \<longrightarrow> boardFull sz (state e) \<and> noEqualNeighbours (state e)) \<and>
     list_all (\<lambda>s. \<not> gameOver s) (history e)"

text \<open>
  The tiles \<open>handleMove\<close> takes as the merged ones of a move:
  \<open>engine.state.tiles.filter((t) => t.justMerged)\<close>.
\<close>

definition justMergedTiles :: "GameState \<Rightarrow> Tile list" where
  "justMergedTiles s = filter (\<lambda>t. justMerged t = Some True) (tiles s)"

text \<open>
  A game played from a list of commands: \<open>handleMove\<close> after \<open>handleMove\<close>, each command
  with the two random draws of its spawn.
\<close>

fun playMoves ::
  "nat \<Rightarrow> Storage \<Rightarrow> GameEngine \<times> nat \<Rightarrow> (Direction \<times> nat \<times> bool) list \<Rightarrow>
     (GameEngine \<times> nat) option" where
  "playMoves sz st game [] = Some game"
| "playMoves sz st game (command # rest) =
     (case handleMove (fst game) (fst command) sz (snd game) (fst (snd command))
             (snd (snd command)) st of
        None \<Rightarrow> None
      | Some (x, e', n') \<Rightarrow> playMoves sz st (e', n') rest)"

subsection \<open>Concrete boards\<close>

text \<open>A storage of which no call throws.\<close>

definition quietStorage :: Storage where
  "quietStorage =
     \<lparr>saveHighScoreThrows = False, loadStatsThrows = False, saveStatsThrows = False\<rparr>"

text \<open>
  A storage without room, where every \<open>setItem\<close> throws; and a storage whose statistics
  record does not parse.
\<close>

definition noSpaceStorage :: Storage where
  "noSpaceStorage =
     \<lparr>saveHighScoreThrows = True, loadStatsThrows = False, saveStatsThrows = True\<rparr>"

definition corruptStatsStorage :: Storage where
  "corruptStatsStorage =
     \<lparr>saveHighScoreThrows = False, loadStatsThrows = True, saveStatsThrows = False\<rparr>"

definition tileAt :: "nat \<Rightarrow> int \<Rightarrow> int \<Rightarrow> int \<Rightarrow> Tile" where
  "tileAt i v r c =
     \<lparr>ident = i, val = v, row = r, col = c, isNew = Some False, justMerged = Some False\<rparr>"

definition boardOf :: "Tile list \<Rightarrow> GameState" where
  "boardOf ts = createEmptyState\<lparr>tiles := ts\<rparr>"

definition threeTwos :: GameState where
  "threeTwos = boardOf [tileAt 0 2 0 0, tileAt 1 2 0 1, tileAt 2 2 0 2]"

definition fourTwos :: GameState where
  "fourTwos = boardOf [tileAt 0 2 0 0, tileAt 1 2 0 1, tileAt 2 2 0 2, tileAt 3 2 0 3]"

text \<open>A fresh game whose two tiles are spawned at (0,0) and (0,1), both of value 2.\<close>

definition freshEngine :: GameEngine where
  "freshEngine = fst (initGame 4 0 True 0 True 0)"

text \<open>A full board without two equal neighbours.\<close>

definition deadBoard :: GameState where
  "deadBoard = boardOf
     [tileAt 0 4 0 0, tileAt 1 8 0 1, tileAt 2 4 0 2, tileAt 3 8 0 3,
      tileAt 4 8 1 0, tileAt 5 4 1 1, tileAt 6 8 1 2, tileAt 7 4 1 3,
      tileAt 8 4 2 0, tileAt 9 8 2 1, tileAt 10 4 2 2, tileAt 11 8 2 3,
      tileAt 12 16 3 0, tileAt 13 32 3 1, tileAt 14 64 3 2, tileAt 15 2 3 3]"

definition engineOf :: "GameState \<Rightarrow> GameEngine" where
  "engineOf s = \<lparr>state = s, history = [], undosRemaining = 3, highScore = 0\<rparr>"


text \<open>
  A board with one empty cell, at (3,0): moving left shifts the last row, the spawned
  tile fills (3,3), and no move is left.
\<close>

definition lastMoveEngine :: GameEngine where
  "lastMoveEngine = engineOf (boardOf
     [tileAt 0 4 0 0, tileAt 1 8 0 1, tileAt 2 4 0 2, tileAt 3 8 0 3,
      tileAt 4 8 1 0, tileAt 5 4 1 1, tileAt 6 8 1 2, tileAt 7 4 1 3,
      tileAt 8 4 2 0, tileAt 9 8 2 1, tileAt 10 4 2 2, tileAt 11 8 2 3,
      tileAt 12 16 3 1, tileAt 13 32 3 2, tileAt 14 64 3 3])"

text \<open>
  A game of fourteen moves without a merge, from a fresh engine with the tiles 4 at (1,3)
  and 4 at (0,0), that fills the board with tiles 2 and 4 in a chessboard pattern.
\<close>

definition fullGame :: "(Direction \<times> nat \<times> bool) list" where
  "fullGame =
     [(Left, 10, False), (Right, 2, True), (Left, 5, True), (Down, 8, False),
      (Down, 3, True), (Down, 8, False), (Up, 5, True), (Up, 1, True), (Down, 5, True),
      (Right, 4, True), (Left, 2, False), (Left, 0, True), (Right, 1, False),
      (Left, 0, False)]"

definition fullGameEnd :: "(GameEngine \<times> nat) option" where
  "fullGameEnd = playMoves 4 quietStorage (initGame 4 7 False 0 False 0) fullGame"

text \<open>
  A game of one move: the fresh tiles 2 at (1,0) and 2 at (1,1) move up and a tile 2 is
  spawned at (0,2), which gives the row 2 2 2.
\<close>

definition rowOfTwosGame :: "(GameEngine \<times> nat) option" where
  "rowOfTwosGame = playMoves 4 quietStorage (initGame 4 4 True 4 True 0) [(Up, 0, True)]"

section \<open>Theorems\<close>

subsection \<open>Cells and grids\<close>

lemma position_clearFlags [simp]: "position (clearFlags t) = position t"
  by (simp add: position_def clearFlags_def)

lemma val_clearFlags [simp]: "val (clearFlags t) = val t"
  by (simp add: clearFlags_def)

lemma row_clearFlags [simp]: "row (clearFlags t) = row t"
  by (simp add: clearFlags_def)

lemma col_clearFlags [simp]: "col (clearFlags t) = col t"
  by (simp add: clearFlags_def)

lemma set_int_upt: "set (map int [0..<sz]) = {x. 0 \<le> x \<and> x < int sz}"
proof (rule set_eqI)
  fix x :: int
  show "x \<in> set (map int [0..<sz]) \<longleftrightarrow> x \<in> {x. 0 \<le> x \<and> x < int sz}"
  proof
    assume "x \<in> set (map int [0..<sz])"
    then show "x \<in> {x. 0 \<le> x \<and> x < int sz}" by auto
  next
    assume "x \<in> {x. 0 \<le> x \<and> x < int sz}"
    then have "nat x < sz" "int (nat x) = x" by auto
    then have "x \<in> int ` {0..<sz}" by (metis atLeastLessThan_iff image_eqI le0)
    then show "x \<in> set (map int [0..<sz])" by simp
  qed
qed

lemma allCells_members:
  "p \<in> set (allCells sz) \<longleftrightarrow> fst p \<in> set (map int [0..<sz]) \<and> snd p \<in> set (map int [0..<sz])"
  by (cases p) (auto simp: allCells_def)

lemma allCells_iff: "p \<in> set (allCells sz) \<longleftrightarrow> inBounds sz p"
  unfolding allCells_members set_int_upt by (simp add: inBounds_def)

lemma traversal_cells_inBounds:
  "p \<in> set (traversalCells (getTraversals d sz)) \<Longrightarrow> inBounds sz p"
proof -
  assume a: "p \<in> set (traversalCells (getTraversals d sz))"
  have "set (traversalCells (getTraversals d sz)) = set (allCells sz)"
    by (auto simp: traversalCells_def getTraversals_def allCells_def Let_def)
  with a show ?thesis by (simp add: allCells_iff)
qed

text \<open>The grid \<open>buildGrid\<close> returns: which entries it has, and when it throws.\<close>

lemma buildGridFrom_rows:
  "buildGridFrom i ts sz g = Some g' \<longleftrightarrow>
     list_all (\<lambda>t. 0 \<le> row t \<and> row t < int sz) ts \<and> g' = the (buildGridFrom i ts sz g)"
  by (induction ts arbitrary: i g) auto

lemma buildGridFrom_clearFlags:
  "buildGridFrom i (map clearFlags ts) sz g = buildGridFrom i ts sz g"
  by (induction ts arbitrary: i g) auto

lemma buildGrid_clearFlags: "buildGrid (map clearFlags ts) sz = buildGrid ts sz"
  by (simp add: buildGrid_def buildGridFrom_clearFlags)

lemma buildGridFrom_sound:
  "buildGridFrom i ts sz g = Some g' \<Longrightarrow> g' p = Some r \<Longrightarrow>
     g p = Some r \<or> (i \<le> r \<and> r < i + length ts \<and> position (ts ! (r - i)) = p)"
proof (induction ts arbitrary: i g)
  case Nil
  then show ?case by simp
next
  case (Cons t ts)
  from Cons.prems(1) have ok: "0 \<le> row t \<and> row t < int sz"
    and rest: "buildGridFrom (Suc i) ts sz (g((row t, col t) \<mapsto> i)) = Some g'"
    by (auto split: if_splits)
  from Cons.IH[OF rest Cons.prems(2)]
  consider "(g((row t, col t) \<mapsto> i)) p = Some r"
    | "Suc i \<le> r \<and> r < Suc i + length ts \<and> position (ts ! (r - Suc i)) = p" by blast
  then show ?case
  proof cases
    case 1
    then show ?thesis by (auto simp: position_def split: if_splits)
  next
    case 2
    then have "r - i = Suc (r - Suc i)" by arith
    with 2 show ?thesis by auto
  qed
qed

lemma buildGrid_sound:
  "buildGrid ts sz = Some g \<Longrightarrow> g p = Some r \<Longrightarrow> r < length ts \<and> position (ts ! r) = p"
  using buildGridFrom_sound[of 0 ts sz Map.empty g p r] by (simp add: buildGrid_def)

lemma buildGridFrom_keeps:
  "buildGridFrom i ts sz g = Some g' \<Longrightarrow> p \<notin> set (map position ts) \<Longrightarrow> g' p = g p"
proof (induction ts arbitrary: i g)
  case Nil
  then show ?case by simp
next
  case (Cons t ts)
  from Cons.prems(1) have rest: "buildGridFrom (Suc i) ts sz (g((row t, col t) \<mapsto> i)) = Some g'"
    by (auto split: if_splits)
  from Cons.prems(2) have "p \<notin> set (map position ts)" "p \<noteq> (row t, col t)"
    by (auto simp: position_def)
  with Cons.IH[OF rest] show ?case by simp
qed

lemma buildGridFrom_complete:
  "buildGridFrom i ts sz g = Some g' \<Longrightarrow> distinct (map position ts) \<Longrightarrow> j < length ts \<Longrightarrow>
     g' (position (ts ! j)) = Some (i + j)"
proof (induction ts arbitrary: i g j)
  case Nil
  then show ?case by simp
next
  case (Cons t ts)
  from Cons.prems(1) have rest: "buildGridFrom (Suc i) ts sz (g((row t, col t) \<mapsto> i)) = Some g'"
    by (auto split: if_splits)
  show ?case
  proof (cases j)
    case 0
    from Cons.prems(2) have "position t \<notin> set (map position ts)" by simp
    from buildGridFrom_keeps[OF rest this] 0 show ?thesis by (simp add: position_def)
  next
    case (Suc k)
    with Cons.prems have "k < length ts" "distinct (map position ts)" by auto
    from Cons.IH[OF rest this(2) this(1)] Suc show ?thesis by simp
  qed
qed

lemma buildGrid_complete:
  "buildGrid ts sz = Some g \<Longrightarrow> distinct (map position ts) \<Longrightarrow> j < length ts \<Longrightarrow>
     g (position (ts ! j)) = Some j"
  using buildGridFrom_complete[of 0 ts sz Map.empty g j] by (simp add: buildGrid_def)

lemma buildGridFrom_total:
  "list_all (\<lambda>t. 0 \<le> row t \<and> row t < int sz) ts \<Longrightarrow> \<exists>g'. buildGridFrom i ts sz g = Some g'"
  by (induction ts arbitrary: i g) auto

lemma buildGrid_total:
  "list_all (\<lambda>t. 0 \<le> row t \<and> row t < int sz) ts \<Longrightarrow> \<exists>g. buildGrid ts sz = Some g"
  unfolding buildGrid_def by (rule buildGridFrom_total)

subsection \<open>The farthest-position search\<close>

text \<open>One turn of the loop: it leaves the grid, it hits a tile, or it goes on.\<close>

lemma ffp_out:
  "\<not> inBounds sz (fst p + fst vec, snd p + snd vec) \<Longrightarrow>
   findFarthestPosition p vec g sz = Some (p, None)"
  by (rule trans[OF findFarthestPosition.simps]) (auto simp: inBounds_def)

lemma ffp_hit:
  "inBounds sz (fst p + fst vec, snd p + snd vec) \<Longrightarrow> g (fst p + fst vec, snd p + snd vec) = Some r \<Longrightarrow>
   findFarthestPosition p vec g sz = Some (p, Some (fst p + fst vec, snd p + snd vec))"
  by (rule trans[OF findFarthestPosition.simps]) (auto simp: inBounds_def)

lemma ffp_step:
  "inBounds sz (fst p + fst vec, snd p + snd vec) \<Longrightarrow> g (fst p + fst vec, snd p + snd vec) = None \<Longrightarrow>
   findFarthestPosition p vec g sz = findFarthestPosition (fst p + fst vec, snd p + snd vec) vec g sz"
  by (rule trans[OF findFarthestPosition.simps]) (auto simp: inBounds_def)

text \<open>
  The search returns for each of the four direction vectors: every turn that goes on
  brings the position one step closer to the border it moves to.
\<close>

lemma reach_less:
  "inBounds sz (fst p + fst (getVector d), snd p + snd (getVector d)) \<Longrightarrow>
   reach d sz (fst p + fst (getVector d), snd p + snd (getVector d)) < reach d sz p"
  by (cases d) (simp_all add: inBounds_def)

lemma findFarthest_terminates:
  "\<exists>res. findFarthestPosition p (getVector d) g sz = Some res"
proof (induction "reach d sz p" arbitrary: p rule: less_induct)
  case less
  let ?n = "(fst p + fst (getVector d), snd p + snd (getVector d))"
  show ?case
  proof (cases "inBounds sz ?n")
    case False
    from ffp_out[where p=p and vec="getVector d" and g=g, OF False] show ?thesis by blast
  next
    case True
    show ?thesis
    proof (cases "g ?n")
      case None
      from less[OF reach_less[OF True]]
        ffp_step[where p=p and vec="getVector d" and g=g, OF True None]
      show ?thesis by simp
    next
      case (Some r)
      from ffp_hit[where p=p and vec="getVector d" and g=g, OF True Some] show ?thesis by blast
    qed
  qed
qed

text \<open>
  What a search that returns has found: the farthest position is the start or an empty
  cell of the grid, and the next position, if any, is an occupied cell of the grid.
\<close>

lemma findFarthest_result_aux:
  assumes "findFarthestPosition p vec g sz = Some res"
  shows "(fst res = p \<or> (g (fst res) = None \<and> inBounds sz (fst res))) \<and>
         (case snd res of None \<Rightarrow> True
            | Some n \<Rightarrow> g n \<noteq> None \<and> inBounds sz n)"
  using assms
proof (induction p vec g sz res rule: findFarthestPosition.raw_induct[rotated 1, consumes 1])
  case (1 ffp previous vector g sz res)
  let ?n = "(fst previous + fst vector, snd previous + snd vector)"
  have body: "(if \<not> inBounds sz ?n then Some (previous, None)
               else if g ?n \<noteq> None then Some (previous, Some ?n)
               else ffp ?n vector g sz) = Some res"
    using 1(2) unfolding inBounds_def by (simp add: not_le not_less cong: if_cong)
  show ?case
  proof (cases "inBounds sz ?n")
    case False
    with body have "res = (previous, None)" by simp
    then show ?thesis by simp
  next
    case True
    show ?thesis
    proof (cases "g ?n")
      case None
      with True body have "ffp ?n vector g sz = Some res" by simp
      from 1(1)[OF this] None True show ?thesis by auto
    next
      case (Some a)
      with True body have "res = (previous, Some ?n)" by simp
      with True Some show ?thesis by simp
    qed
  qed
qed

lemma findFarthest_farthest:
  "findFarthestPosition p vec g sz = Some (far, nxt) \<Longrightarrow>
     far = p \<or> (g far = None \<and> inBounds sz far)"
  using findFarthest_result_aux[of p vec g sz "(far, nxt)"] by simp

lemma findFarthest_next:
  "findFarthestPosition p vec g sz = Some (far, Some n) \<Longrightarrow> g n \<noteq> None \<and> inBounds sz n"
  using findFarthest_result_aux[of p vec g sz "(far, Some n)"] by simp

subsection \<open>A scan that moves nothing\<close>

lemma moveTile_same:
  assumes "cells v cell = Some tile" and "position (store v ! tile) = cell"
    and "tile < length (store v)" and "inBounds sz cell"
  shows "moveTile tile cell sz v = Some v"
proof -
  let ?t = "store v ! tile"
  from assms(2) have rc: "row ?t = fst cell" "col ?t = snd cell"
    by (auto simp: position_def)
  have st: "(store v)[tile := ?t\<lparr>row := fst cell, col := snd cell\<rparr>] = store v"
    using rc by (metis list_update_id Tile.surjective Tile.update_convs(3) Tile.update_convs(4))
  have ce: "((cells v)((row ?t, col ?t) := None))(cell \<mapsto> tile) = cells v"
    using rc assms(1) by (auto simp: fun_eq_iff)
  from assms(4) rc have "0 \<le> row ?t \<and> row ?t < int sz" "0 \<le> fst cell \<and> fst cell < int sz"
    by (auto simp: inBounds_def)
  then show ?thesis
    unfolding moveTile_def Let_def st ce by simp
qed

lemma slideTile_same:
  assumes "cells v cell = Some tile" and "position (store v ! tile) = cell"
    and "tile < length (store v)" and "inBounds sz cell"
  shows "slideTile tile cell cell sz v = Some v"
  unfolding slideTile_def moveTile_same[OF assms] by simp

lemma moveCell_blocked:
  assumes inb: "inBounds sz cell"
    and agree: "\<And>r. cells v cell = Some r \<Longrightarrow> r < length (store v) \<and> position (store v ! r) = cell"
    and blocked: "\<And>r. cells v cell = Some r \<Longrightarrow>
        \<not> inBounds sz (fst cell + fst vec, snd cell + snd vec)
        \<or> (\<exists>j. cells v (fst cell + fst vec, snd cell + snd vec) = Some j
                \<and> val (store v ! j) \<noteq> val (store v ! r))"
  shows "moveCell vec sz cell v = Some v"
proof (cases "cells v cell")
  case None
  then show ?thesis by (simp add: moveCell_def)
next
  case (Some r)
  let ?n = "(fst cell + fst vec, snd cell + snd vec)"
  from agree[OF Some] have a: "r < length (store v)" "position (store v ! r) = cell" by auto
  note same = slideTile_same[OF Some a(2) a(1) inb]
  show ?thesis
  proof (cases "inBounds sz ?n")
    case False
    from ffp_out[where p=cell and vec=vec and g="cells v", OF False] Some same show ?thesis by (simp add: moveCell_def)
  next
    case True
    with blocked[OF Some] obtain j where j: "cells v ?n = Some j" "val (store v ! j) \<noteq> val (store v ! r)"
      by blast
    from ffp_hit[where p=cell and vec=vec and g="cells v", OF True j(1)] Some same j show ?thesis by (simp add: moveCell_def)
  qed
qed

lemma moveCells_blocked:
  assumes "\<And>cell. cell \<in> set cs \<Longrightarrow> inBounds sz cell"
    and "\<And>cell r. cell \<in> set cs \<Longrightarrow> cells v cell = Some r \<Longrightarrow>
            r < length (store v) \<and> position (store v ! r) = cell"
    and "\<And>cell r. cell \<in> set cs \<Longrightarrow> cells v cell = Some r \<Longrightarrow>
        \<not> inBounds sz (fst cell + fst vec, snd cell + snd vec)
        \<or> (\<exists>j. cells v (fst cell + fst vec, snd cell + snd vec) = Some j
                \<and> val (store v ! j) \<noteq> val (store v ! r))"
  shows "moveCells vec sz cs v = Some v"
  using assms
proof (induction cs)
  case Nil
  then show ?case by simp
next
  case (Cons c cs)
  have "moveCell vec sz c v = Some v"
  proof (rule moveCell_blocked)
    show "inBounds sz c" using Cons.prems(1)[of c] by simp
    show "\<And>r. cells v c = Some r \<Longrightarrow> r < length (store v) \<and> position (store v ! r) = c"
      using Cons.prems(2)[of c] by simp
    show "\<And>r. cells v c = Some r \<Longrightarrow>
        \<not> inBounds sz (fst c + fst vec, snd c + snd vec)
        \<or> (\<exists>j. cells v (fst c + fst vec, snd c + snd vec) = Some j
                \<and> val (store v ! j) \<noteq> val (store v ! r))"
      using Cons.prems(3)[of c] by simp
  qed
  moreover have "moveCells vec sz cs v = Some v"
  proof (rule Cons.IH)
    show "\<And>cell. cell \<in> set cs \<Longrightarrow> inBounds sz cell" using Cons.prems(1) by auto
    show "\<And>cell r. cell \<in> set cs \<Longrightarrow> cells v cell = Some r \<Longrightarrow>
            r < length (store v) \<and> position (store v ! r) = cell"
      using Cons.prems(2) by auto
    show "\<And>cell r. cell \<in> set cs \<Longrightarrow> cells v cell = Some r \<Longrightarrow>
        \<not> inBounds sz (fst cell + fst vec, snd cell + snd vec)
        \<or> (\<exists>j. cells v (fst cell + fst vec, snd cell + snd vec) = Some j
                \<and> val (store v ! j) \<noteq> val (store v ! r))"
      using Cons.prems(3) by auto
  qed
  ultimately show ?case by simp
qed

text \<open>The scan of a board on which every tile is blocked.\<close>

lemma moveScan_blocked:
  assumes g: "buildGrid (tiles s) sz = Some g"
    and blocked: "\<And>cell r. inBounds sz cell \<Longrightarrow> g cell = Some r \<Longrightarrow>
        \<not> inBounds sz (ahead d cell)
        \<or> (\<exists>j. g (ahead d cell) = Some j \<and> val (tiles s ! j) \<noteq> val (tiles s ! r))"
  shows "moveScan s d sz =
           Some \<lparr>store = map clearFlags (tiles s), stateTiles = [0..<length (tiles s)],
                 cells = g, mergedPositions = {}, stateScore = score s, stateComboCount = 0,
                 stateWon = won s, moved = False\<rparr>"
proof -
  let ?v = "\<lparr>store = map clearFlags (tiles s), stateTiles = [0..<length (tiles s)],
                 cells = g, mergedPositions = {}, stateScore = score s, stateComboCount = 0,
                 stateWon = won s, moved = False\<rparr>"
  have "moveCells (getVector d) sz (traversalCells (getTraversals d sz)) ?v = Some ?v"
  proof (rule moveCells_blocked)
    fix cell assume "cell \<in> set (traversalCells (getTraversals d sz))"
    then show "inBounds sz cell" by (rule traversal_cells_inBounds)
  next
    fix cell r assume "cell \<in> set (traversalCells (getTraversals d sz))" "cells ?v cell = Some r"
    with buildGrid_sound[OF g, of cell r]
    show "r < length (store ?v) \<and> position (store ?v ! r) = cell" by simp
  next
    fix cell r assume c: "cell \<in> set (traversalCells (getTraversals d sz))" "cells ?v cell = Some r"
    then have gr: "g cell = Some r" by simp
    from c(1) have inb: "inBounds sz cell" by (rule traversal_cells_inBounds)
    from buildGrid_sound[OF g gr] have r: "r < length (tiles s)" by simp
    from blocked[OF inb gr]
    show "\<not> inBounds sz (fst cell + fst (getVector d), snd cell + snd (getVector d))
        \<or> (\<exists>j. cells ?v (fst cell + fst (getVector d), snd cell + snd (getVector d)) = Some j
                \<and> val (store ?v ! j) \<noteq> val (store ?v ! r))"
    proof
      assume "\<not> inBounds sz (ahead d cell)"
      then show ?thesis by (simp add: ahead_def)
    next
      assume "\<exists>j. g (ahead d cell) = Some j \<and> val (tiles s ! j) \<noteq> val (tiles s ! r)"
      then obtain j where j: "g (ahead d cell) = Some j" "val (tiles s ! j) \<noteq> val (tiles s ! r)"
        by blast
      from buildGrid_sound[OF g j(1)] have "j < length (tiles s)" by simp
      with j r show ?thesis by (auto simp: ahead_def)
    qed
  qed
  with g show ?thesis
    by (simp add: moveScan_def Let_def buildGrid_clearFlags)
qed

lemma scannedState_blocked:
  "scannedState s \<lparr>store = map clearFlags (tiles s), stateTiles = [0..<length (tiles s)],
                 cells = g, mergedPositions = {}, stateScore = score s, stateComboCount = 0,
                 stateWon = won s, moved = False\<rparr> = rejectedState s"
proof -
  have "map ((!) (map clearFlags (tiles s))) [0..<length (tiles s)] = map clearFlags (tiles s)"
    using map_nth[of "map clearFlags (tiles s)"] by simp
  then show ?thesis by (simp add: scannedState_def rejectedState_def)
qed

lemma move_blocked:
  assumes g: "buildGrid (tiles (state e)) sz = Some g"
    and blocked: "\<And>cell r. inBounds sz cell \<Longrightarrow> g cell = Some r \<Longrightarrow>
        \<not> inBounds sz (ahead d cell)
        \<or> (\<exists>j. g (ahead d cell) = Some j \<and> val (tiles (state e) ! j) \<noteq> val (tiles (state e) ! r))"
  shows "move e d sz n pick small st = Some (Inr False, e\<lparr>state := rejectedState (state e)\<rparr>, n)"
proof -
  have scan: "moveScan (state e) d sz =
           Some \<lparr>store = map clearFlags (tiles (state e)),
                 stateTiles = [0..<length (tiles (state e))],
                 cells = g, mergedPositions = {}, stateScore = score (state e),
                 stateComboCount = 0, stateWon = won (state e), moved = False\<rparr>"
    by (rule moveScan_blocked[OF g]) (rule blocked)
  show ?thesis
    by (simp add: move_def scan scannedState_blocked)
qed

lemma checkCells_False:
  "checkCells ts g sz cs = False \<Longrightarrow> cell \<in> set cs \<Longrightarrow>
     \<exists>i. g cell = Some i
       \<and> (snd cell < int sz - 1 \<longrightarrow>
            map_option (\<lambda>r. val (ts ! r)) (g (fst cell, snd cell + 1)) \<noteq> Some (val (ts ! i)))
       \<and> (fst cell < int sz - 1 \<longrightarrow>
            map_option (\<lambda>r. val (ts ! r)) (g (fst cell + 1, snd cell)) \<noteq> Some (val (ts ! i)))"
proof (induction cs)
  case Nil
  then show ?case by simp
next
  case (Cons c cs)
  from Cons.prems(1) obtain i where i: "g c = Some i"
    by (cases "g c") auto
  from Cons.prems(1) i have
    here: "\<not> (snd c < int sz - 1 \<and> map_option (\<lambda>r. val (ts ! r)) (g (fst c, snd c + 1)) = Some (val (ts ! i)))"
      "\<not> (fst c < int sz - 1 \<and> map_option (\<lambda>r. val (ts ! r)) (g (fst c + 1, snd c)) = Some (val (ts ! i)))"
    and rest: "checkCells ts g sz cs = False"
    by (auto split: if_splits)
  show ?case
  proof (cases "cell = c")
    case True
    with i here show ?thesis by auto
  next
    case False
    with Cons.prems(2) have "cell \<in> set cs" by simp
    from Cons.IH[OF rest this] show ?thesis .
  qed
qed

lemma dead_board_blocked:
  assumes g: "buildGrid ts sz = Some g"
    and dead: "checkCells ts g sz (allCells sz) = False"
    and inb: "inBounds sz cell" and r: "g cell = Some r"
  shows "\<not> inBounds sz (ahead d cell)
        \<or> (\<exists>j. g (ahead d cell) = Some j \<and> val (ts ! j) \<noteq> val (ts ! r))"
proof (cases "inBounds sz (ahead d cell)")
  case False
  then show ?thesis by simp
next
  case True
  then have "ahead d cell \<in> set (allCells sz)" by (simp add: allCells_iff)
  from checkCells_False[OF dead this] obtain j where
    j: "g (ahead d cell) = Some j"
    and jr: "snd (ahead d cell) < int sz - 1 \<longrightarrow>
            map_option (\<lambda>r. val (ts ! r)) (g (fst (ahead d cell), snd (ahead d cell) + 1)) \<noteq> Some (val (ts ! j))"
    and jd: "fst (ahead d cell) < int sz - 1 \<longrightarrow>
            map_option (\<lambda>r. val (ts ! r)) (g (fst (ahead d cell) + 1, snd (ahead d cell))) \<noteq> Some (val (ts ! j))"
    by blast
  from inb have "cell \<in> set (allCells sz)" by (simp add: allCells_iff)
  from checkCells_False[OF dead this] r have
    cr: "snd cell < int sz - 1 \<longrightarrow>
            map_option (\<lambda>r. val (ts ! r)) (g (fst cell, snd cell + 1)) \<noteq> Some (val (ts ! r))"
    and cd: "fst cell < int sz - 1 \<longrightarrow>
            map_option (\<lambda>r. val (ts ! r)) (g (fst cell + 1, snd cell)) \<noteq> Some (val (ts ! r))"
    by auto
  have "val (ts ! j) \<noteq> val (ts ! r)"
  proof (cases d)
    case Up
    then have a: "ahead d cell = (fst cell - 1, snd cell)" by (simp add: ahead_def)
    with True inb have "fst (ahead d cell) < int sz - 1" by (simp add: inBounds_def)
    with jd a r show ?thesis by auto
  next
    case Down
    then have a: "ahead d cell = (fst cell + 1, snd cell)" by (simp add: ahead_def)
    with True have "fst cell < int sz - 1" by (simp add: inBounds_def)
    with cd a j show ?thesis by auto
  next
    case Left
    then have a: "ahead d cell = (fst cell, snd cell - 1)" by (simp add: ahead_def)
    with True inb have "snd (ahead d cell) < int sz - 1" by (simp add: inBounds_def)
    with jr a r show ?thesis by auto
  next
    case Right
    then have a: "ahead d cell = (fst cell, snd cell + 1)" by (simp add: ahead_def)
    with True have "snd cell < int sz - 1" by (simp add: inBounds_def)
    with cr a j show ?thesis by auto
  qed
  with j show ?thesis by blast
qed

text \<open>
  Claim C4 (soundness of the detector): in a state on which \<open>checkAvailableMoves\<close> returns
  false, \<open>move\<close> returns \<open>moved = false\<close> in each of the four directions. The call
  clears the flags of the tiles, resets \<open>comboCount\<close> and changes nothing else.
\<close>

theorem no_available_moves_no_direction_moves:
  assumes "checkAvailableMoves (state e) sz = Some False"
  shows "\<forall>d. move e d sz n pick small st =
               Some (Inr False, e\<lparr>state := rejectedState (state e)\<rparr>, n)"
proof
  fix d
  from assms obtain g where g: "buildGrid (tiles (state e)) sz = Some g"
    and dead: "checkCells (tiles (state e)) g sz (allCells sz) = False"
    by (auto simp: checkAvailableMoves_def split: option.splits)
  show "move e d sz n pick small st = Some (Inr False, e\<lparr>state := rejectedState (state e)\<rparr>, n)"
    by (rule move_blocked[OF g]) (rule dead_board_blocked[OF g dead])
qed

theorem no_available_moves_witness:
  "checkAvailableMoves (state (engineOf deadBoard)) 4 = Some False \<and>
   move (engineOf deadBoard) Left 4 16 0 True quietStorage =
     Some (Inr False,
           (engineOf deadBoard)\<lparr>state := rejectedState (state (engineOf deadBoard))\<rparr>, 16)"
proof -
  have h: "checkAvailableMoves (state (engineOf deadBoard)) 4 = Some False"
    by code_simp
  from no_available_moves_no_direction_moves[OF h, of 16 0 True quietStorage] h
  show ?thesis by blast
qed

lemma valid_rows:
  "validState sz s \<Longrightarrow> list_all (\<lambda>t. 0 \<le> row t \<and> row t < int sz) (tiles s)"
  by (auto simp: validState_def inBounds_def position_def list_all_iff)

lemma cannotMove_blocked:
  assumes v: "validState sz s" and c: "cannotMove sz d s"
    and g: "buildGrid (tiles s) sz = Some g"
    and inb: "inBounds sz cell" and r: "g cell = Some r"
  shows "\<not> inBounds sz (ahead d cell)
        \<or> (\<exists>j. g (ahead d cell) = Some j \<and> val (tiles s ! j) \<noteq> val (tiles s ! r))"
proof (cases "inBounds sz (ahead d cell)")
  case False
  then show ?thesis by simp
next
  case True
  from buildGrid_sound[OF g r] have rl: "r < length (tiles s)" and rp: "position (tiles s ! r) = cell"
    by auto
  from rl have "tiles s ! r \<in> set (tiles s)" by simp
  with c rp True obtain u where u: "u \<in> set (tiles s)" "position u = ahead d cell" "val u \<noteq> val (tiles s ! r)"
    by (auto simp: cannotMove_def list_all_iff list_ex_iff)
  from u(1) obtain j where j: "j < length (tiles s)" "tiles s ! j = u"
    by (auto simp: in_set_conv_nth)
  from v have "distinct (map position (tiles s))" by (simp add: validState_def)
  from buildGrid_complete[OF g this j(1)] j(2) u(2) have "g (ahead d cell) = Some j" by simp
  with u(3) j(2) show ?thesis by blast
qed

text \<open>
  Claim C3, as amended: in a valid state and a direction in which no tile can move or
  merge, \<open>move\<close> returns false, no tile is spawned, and the score, the move counter, the
  flags \<open>gameOver\<close> and \<open>won\<close>, the position, value and identifier of every tile, the
  history, the undo counter and the high score are what they were; but the flags
  \<open>isNew\<close> and \<open>justMerged\<close> of every tile are set to false and \<open>comboCount\<close> to 0.
  \<open>handleMove\<close> pushes nothing on the history (and does not call \<open>move\<close> at all when
  the game is over).
\<close>

theorem rejected_move_only_clears_flags:
  assumes "validState sz (state e)" and "cannotMove sz d (state e)"
  shows "move e d sz n pick small st =
           Some (Inr False, e\<lparr>state := rejectedState (state e)\<rparr>, n) \<and>
         handleMove e d sz n pick small st =
           Some (None, if gameOver (state e) then e else e\<lparr>state := rejectedState (state e)\<rparr>, n)"
proof -
  from buildGrid_total[OF valid_rows[OF assms(1)]] obtain g where
    g: "buildGrid (tiles (state e)) sz = Some g" by blast
  have m: "move e d sz n pick small st =
             Some (Inr False, e\<lparr>state := rejectedState (state e)\<rparr>, n)"
    by (rule move_blocked[OF g]) (rule cannotMove_blocked[OF assms g])
  then show ?thesis by (simp add: handleMove_def)
qed

theorem rejected_move_witness:
  "validState 4 (state freshEngine) \<and> cannotMove 4 Up (state freshEngine) \<and>
   move freshEngine Up 4 2 0 True quietStorage =
     Some (Inr False, freshEngine\<lparr>state := rejectedState (state freshEngine)\<rparr>, 2)"
proof -
  have h1: "validState 4 (state freshEngine)" by code_simp
  have h2: "cannotMove 4 Up (state freshEngine)" by code_simp
  from rejected_move_only_clears_flags[OF h1 h2, of 2 0 True quietStorage] h1 h2
  show ?thesis by blast
qed

text \<open>
  The claim as stated, that the tiles are left as they were flags included, fails on the
  first move of a fresh game: both tiles are in row 0, so nothing moves up; the flags
  \<open>isNew = true\<close> of the two spawned tiles become false and the absent \<open>justMerged\<close>
  becomes false.
\<close>

theorem rejected_move_changes_flags:
  "cannotMove 4 Up (state freshEngine) \<and>
   move freshEngine Up 4 2 0 True quietStorage =
     Some (Inr False,
           \<lparr>state = \<lparr>tiles = [\<lparr>ident = 0, val = 2, row = 0, col = 0,
                                isNew = Some False, justMerged = Some False\<rparr>,
                               \<lparr>ident = 1, val = 2, row = 0, col = 1,
                                isNew = Some False, justMerged = Some False\<rparr>],
                      score = 0, moves = 0, comboCount = 0, gameOver = False, won = False\<rparr>,
             history = [], undosRemaining = 3, highScore = 0\<rparr>, 2) \<and>
   tiles (state freshEngine) =
     [\<lparr>ident = 0, val = 2, row = 0, col = 0, isNew = Some True, justMerged = None\<rparr>,
      \<lparr>ident = 1, val = 2, row = 0, col = 1, isNew = Some True, justMerged = None\<rparr>] \<and>
   move freshEngine Up 4 2 0 True quietStorage \<noteq> Some (Inr False, freshEngine, 2)"
  by code_simp

text \<open>
  What a call of \<open>move\<close> leaves, however it ends: the state of the scan when nothing
  moved; else the state with the spawned tile, with \<open>gameOver\<close> set when the detector
  found no move. The history and the undo counter are not touched.
\<close>

lemma move_leaves:
  assumes "move e d sz n pick small st = Some (r, e', n')"
  shows "\<exists>v. moveScan (state e) d sz = Some v \<and>
           history e' = history e \<and> undosRemaining e' = undosRemaining e \<and>
           (if moved v
            then state e' =
                   fst (spawnTile ((scannedState (state e) v)
                          \<lparr>moves := moves (scannedState (state e) v) + 1\<rparr>) sz n pick small)
                 \<or> (state e' =
                       (fst (spawnTile ((scannedState (state e) v)
                          \<lparr>moves := moves (scannedState (state e) v) + 1\<rparr>) sz n pick small))
                       \<lparr>gameOver := True\<rparr>
                     \<and> checkAvailableMoves
                          (fst (spawnTile ((scannedState (state e) v)
                             \<lparr>moves := moves (scannedState (state e) v) + 1\<rparr>) sz n pick small))
                          sz = Some False)
            else state e' = scannedState (state e) v \<and> r = Inr False \<and> n' = n)"
proof -
  from assms obtain v where v: "moveScan (state e) d sz = Some v"
    by (auto simp: move_def split: option.splits)
  show ?thesis
  proof (cases "moved v")
    case False
    with assms v show ?thesis by (auto simp: move_def Let_def)
  next
    case True
    with assms v show ?thesis
      by (auto simp: move_def Let_def split_beta split: option.splits if_splits)
  qed
qed

lemma move_keeps_engine_fields:
  assumes "move e d sz n pick small st = Some (r, e1, n1)"
  shows "history e1 = history e \<and> undosRemaining e1 = undosRemaining e"
  using move_leaves[OF assms] by blast

lemma last_kept:
  "last (if length (h @ [s]) > 10 then tl (h @ [s]) else h @ [s]) = s \<and>
   (if length (h @ [s]) > 10 then tl (h @ [s]) else h @ [s]) \<noteq> []"
  by (cases h) auto

text \<open>
  Claim C5 (undo): when the game is not over, the undo counter is positive and \<open>move\<close>
  returns true, \<open>handleMove\<close> followed by \<open>handleUndo\<close> gives back the state that stood
  before the move (the whole state, flags included), and the undo counter is one less.
\<close>

theorem undo_restores_state:
  assumes "\<not> gameOver (state e)"
    and "move e d sz n pick small st = Some (Inr True, e1, n1)"
    and "undosRemaining e > 0"
  shows "\<exists>e2. handleMove e d sz n pick small st = Some (None, e2, n1) \<and>
           state (handleUndo e2) = state e \<and>
           undosRemaining e2 = undosRemaining e \<and>
           undosRemaining (handleUndo e2) = undosRemaining e - 1"
proof -
  let ?kept = "if length (history e1 @ [state e]) > 10
               then tl (history e1 @ [state e]) else history e1 @ [state e]"
  from assms(1,2) have hm:
    "handleMove e d sz n pick small st = Some (None, e1\<lparr>history := ?kept\<rparr>, n1)"
    by (simp add: handleMove_def Let_def)
  from move_keeps_engine_fields[OF assms(2)] assms(3) have u: "undosRemaining e1 = undosRemaining e"
    "undosRemaining e1 > 0" by auto
  from last_kept[of "history e1" "state e"] have k: "last ?kept = state e" "?kept \<noteq> []"
    by blast+
  from k(2) have len: "0 < length ?kept" by blast
  have "state (handleUndo (e1\<lparr>history := ?kept\<rparr>)) = state e \<and>
        undosRemaining (e1\<lparr>history := ?kept\<rparr>) = undosRemaining e \<and>
        undosRemaining (handleUndo (e1\<lparr>history := ?kept\<rparr>)) = undosRemaining e - 1"
    unfolding handleUndo_def using u k(1) len by simp
  with hm show ?thesis by blast
qed

theorem undo_restores_state_witness:
  "\<not> gameOver (state freshEngine) \<and>
   move freshEngine Left 4 2 0 True quietStorage \<noteq> None \<and>
   undosRemaining freshEngine > 0 \<and>
   state (handleUndo (fst (snd (the (handleMove freshEngine Left 4 2 0 True quietStorage)))))
     = state freshEngine \<and>
   undosRemaining (handleUndo (fst (snd (the (handleMove freshEngine Left 4 2 0 True quietStorage)))))
     = 2"
proof -
  have h1: "\<not> gameOver (state freshEngine)" by code_simp
  have h3: "undosRemaining freshEngine > 0" by code_simp
  have u: "undosRemaining freshEngine = 3" by code_simp
  have h2: "move freshEngine Left 4 2 0 True quietStorage =
    Some (Inr True,
          \<lparr>state = \<lparr>tiles = [\<lparr>ident = 0, val = 4, row = 0, col = 0,
                               isNew = None, justMerged = Some True\<rparr>,
                              \<lparr>ident = 2, val = 2, row = 0, col = 1,
                               isNew = Some True, justMerged = None\<rparr>],
                     score = 4, moves = 1, comboCount = 1, gameOver = False, won = False\<rparr>,
            history = [], undosRemaining = 3, highScore = 4\<rparr>, 3)"
    by code_simp
  from undo_restores_state[OF h1 h2 h3] h1 h2 h3 u show ?thesis by auto
qed

subsection \<open>The invariant through \<open>moveTile\<close> and the merge\<close>

lemma gridSoundD:
  "gridSound sz v \<Longrightarrow> cells v p = Some r \<Longrightarrow>
     r < length (store v) \<and> position (store v ! r) = p \<and> inBounds sz p"
  unfolding gridSound_def by blast

lemma tilesPlacedD:
  "tilesPlaced v \<Longrightarrow> r \<in> set (stateTiles v) \<Longrightarrow>
     r < length (store v) \<and> cells v (position (store v ! r)) = Some r"
  unfolding tilesPlaced_def by blast

lemma moveTile_inv:
  assumes gs: "gridSound sz v" and tp: "tilesPlaced v"
    and c: "cells v cell = Some tile"
    and far: "far = cell \<or> (cells v far = None \<and> inBounds sz far)"
  shows "\<exists>v'. moveTile tile far sz v = Some v' \<and> gridSound sz v' \<and> tilesPlaced v'"
proof -
  from gridSoundD[OF gs c] have tl: "tile < length (store v)"
    and tpn: "position (store v ! tile) = cell" and cin: "inBounds sz cell"
    by blast+
  show ?thesis
  proof (cases "far = cell")
    case True
    with moveTile_same[OF c tpn tl cin] gs tp show ?thesis by simp
  next
    case False
    with far have fn: "cells v far = None" and fin: "inBounds sz far" by auto
    let ?t = "store v ! tile"
    let ?st = "(store v)[tile := ?t\<lparr>row := fst far, col := snd far\<rparr>]"
    let ?ce = "((cells v)(cell := None))(far \<mapsto> tile)"
    let ?v' = "v\<lparr>store := ?st, cells := ?ce\<rparr>"
    from tpn have rc: "(row ?t, col ?t) = cell" by (simp add: position_def)
    from cin fin rc have "moveTile tile far sz v = Some ?v'"
      unfolding moveTile_def Let_def rc[symmetric] by (auto simp: inBounds_def)
    moreover have "gridSound sz ?v'"
      unfolding gridSound_def
    proof (intro allI impI)
      fix p r assume a: "cells ?v' p = Some r"
      show "r < length (store ?v') \<and> position (store ?v' ! r) = p \<and> inBounds sz p"
      proof (cases "p = far")
        case True
        with a have "r = tile" by simp
        with True tl fin show ?thesis by (simp add: position_def)
      next
        case pf: False
        with a have pc: "p \<noteq> cell" and old: "cells v p = Some r"
          by (auto split: if_splits)
        from gridSoundD[OF gs old] have r: "r < length (store v)" "position (store v ! r) = p" "inBounds sz p"
          by blast+
        from r(2) tpn pc have "r \<noteq> tile" by auto
        with r show ?thesis by simp
      qed
    qed
    moreover have "tilesPlaced ?v'"
      unfolding tilesPlaced_def
    proof (intro conjI ballI)
      from tp show "distinct (stateTiles ?v')" by (simp add: tilesPlaced_def)
    next
      fix r assume "r \<in> set (stateTiles ?v')"
      then have rin: "r \<in> set (stateTiles v)" by simp
      from tilesPlacedD[OF tp rin] have r: "r < length (store v)" "cells v (position (store v ! r)) = Some r"
        by blast+
      show "r < length (store ?v')" using r by simp
      show "cells ?v' (position (store ?v' ! r)) = Some r"
      proof (cases "r = tile")
        case True
        with tl show ?thesis by (simp add: position_def)
      next
        case rt: False
        from r(2) c rt have "position (store v ! r) \<noteq> cell" by auto
        moreover from r(2) fn have "position (store v ! r) \<noteq> far" by auto
        ultimately show ?thesis using rt r(2) by simp
      qed
    qed
    ultimately show ?thesis by blast
  qed
qed

lemma slideTile_inv:
  assumes "gridSound sz v" and "tilesPlaced v"
    and "cells v cell = Some tile"
    and "far = cell \<or> (cells v far = None \<and> inBounds sz far)"
  shows "\<exists>v'. slideTile tile far cell sz v = Some v' \<and> gridSound sz v' \<and> tilesPlaced v'"
proof -
  from moveTile_inv[OF assms] obtain v' where
    v': "moveTile tile far sz v = Some v'" "gridSound sz v'" "tilesPlaced v'" by blast
  have "gridSound sz (v'\<lparr>moved := True\<rparr>)" "tilesPlaced (v'\<lparr>moved := True\<rparr>)"
    using v'(2,3) by (simp_all add: gridSound_def tilesPlaced_def)
  with v' show ?thesis by (simp add: slideTile_def)
qed

subsection \<open>Lists of references\<close>

lemma indexOf_None: "indexOf xs x = None \<longleftrightarrow> x \<notin> set xs"
  by (induction xs) auto

lemma indexOf_Some: "indexOf xs x = Some i \<Longrightarrow> i < length xs \<and> xs ! i = x"
  by (induction xs arbitrary: i) (auto split: if_splits)

lemma spliced_is_remove1:
  "(case indexOf xs x of None \<Rightarrow> xs | Some idx \<Rightarrow> splice1 xs idx) = remove1 x xs"
proof (induction xs)
  case Nil
  then show ?case by simp
next
  case (Cons y ys)
  show ?case
  proof (cases "y = x")
    case True
    then show ?thesis by (simp add: splice1_def)
  next
    case False
    with Cons show ?thesis
      by (cases "indexOf ys x") (simp_all add: splice1_def)
  qed
qed

lemma replaced_set:
  assumes "distinct ys" and "m \<notin> set ys"
  shows "distinct (case indexOf ys y of None \<Rightarrow> ys | Some i \<Rightarrow> ys[i := m]) \<and>
         set (case indexOf ys y of None \<Rightarrow> ys | Some i \<Rightarrow> ys[i := m]) =
           (if y \<in> set ys then insert m (set ys - {y}) else set ys)"
proof (cases "indexOf ys y")
  case None
  then have "y \<notin> set ys" by (simp add: indexOf_None)
  with None assms show ?thesis by simp
next
  case (Some i)
  from indexOf_Some[OF Some] have i: "i < length ys" "ys ! i = y" by auto
  then have yin: "y \<in> set ys" by auto
  from assms i have "distinct (ys[i := m])" by (simp add: distinct_list_update)
  moreover from assms(1) i have "set (ys[i := m]) = insert m (set ys - {y})"
    by (simp add: set_update_distinct)
  ultimately show ?thesis using Some yin by simp
qed


lemma mergeTiles_inv:
  assumes gs: "gridSound sz v" and tp: "tilesPlaced v"
    and nx: "cells v next = Some nextTile" and nin: "inBounds sz next"
  shows "gridSound sz (mergeTiles tile nextTile next v) \<and>
         tilesPlaced (mergeTiles tile nextTile next v)"
proof -
  let ?merged = "\<lparr>ident = ident (store v ! nextTile), val = val (store v ! tile) * 2,
                   row = fst next, col = snd next, isNew = None, justMerged = Some True\<rparr>"
  let ?m = "length (store v)"
  let ?tiles1 = "remove1 tile (stateTiles v)"
  let ?tiles2 = "case indexOf ?tiles1 nextTile of None \<Rightarrow> ?tiles1 | Some i \<Rightarrow> ?tiles1[i := ?m]"
  let ?v' = "mergeTiles tile nextTile next v"
  have st: "store ?v' = store v @ [?merged]" and ce: "cells ?v' = (cells v)(next \<mapsto> ?m)"
    and ti: "stateTiles ?v' = ?tiles2"
    by (simp_all add: mergeTiles_def Let_def spliced_is_remove1)
  have pm: "position ?merged = next" by (simp add: position_def)
  have gs': "gridSound sz ?v'"
    unfolding gridSound_def
  proof (intro allI impI)
    fix p r assume a: "cells ?v' p = Some r"
    show "r < length (store ?v') \<and> position (store ?v' ! r) = p \<and> inBounds sz p"
    proof (cases "p = next")
      case True
      with a ce have "r = ?m" by simp
      with True st pm nin show ?thesis by simp
    next
      case False
      with a ce have "cells v p = Some r" by simp
      from gridSoundD[OF gs this] st show ?thesis by (simp add: nth_append)
    qed
  qed
  from tp have d: "distinct (stateTiles v)" by (simp add: tilesPlaced_def)
  then have d1: "distinct ?tiles1" by simp
  have lt: "\<And>r. r \<in> set ?tiles1 \<Longrightarrow> r \<in> set (stateTiles v)"
    by (meson notin_set_remove1)
  have "?m \<notin> set ?tiles1"
  proof
    assume "?m \<in> set ?tiles1"
    from tilesPlacedD[OF tp lt[OF this]] show False by simp
  qed
  from replaced_set[OF d1 this, of nextTile]
  have d2: "distinct ?tiles2"
    and s2: "set ?tiles2 = (if nextTile \<in> set ?tiles1 then insert ?m (set ?tiles1 - {nextTile})
                            else set ?tiles1)"
    by blast+
  have tp': "tilesPlaced ?v'"
    unfolding tilesPlaced_def
  proof (intro conjI ballI)
    from d2 ti show "distinct (stateTiles ?v')" by simp
  next
    fix r assume "r \<in> set (stateTiles ?v')"
    with ti s2 have r: "r = ?m \<or> (r \<in> set ?tiles1 \<and> r \<noteq> nextTile)"
      by (auto split: if_splits)
    show "r < length (store ?v')"
    proof (cases "r = ?m")
      case True
      with st show ?thesis by simp
    next
      case False
      with r have "r \<in> set (stateTiles v)" using lt by blast
      from tilesPlacedD[OF tp this] st show ?thesis by simp
    qed
    show "cells ?v' (position (store ?v' ! r)) = Some r"
    proof (cases "r = ?m")
      case True
      with st ce pm show ?thesis by simp
    next
      case False
      with r have rin: "r \<in> set (stateTiles v)" and rn: "r \<noteq> nextTile" using lt by blast+
      from tilesPlacedD[OF tp rin] have rl: "r < length (store v)"
        and rc: "cells v (position (store v ! r)) = Some r" by blast+
      from rc nx rn have "position (store v ! r) \<noteq> next" by auto
      with rl rc st ce show ?thesis by (simp add: nth_append)
    qed
  qed
  from gs' tp' show ?thesis by blast
qed

subsection \<open>The invariant through the scan\<close>

lemma moveCell_inv:
  assumes inv: "scanInv sz v"
    and search: "\<exists>res. findFarthestPosition cell vec (cells v) sz = Some res"
  shows "\<exists>v'. moveCell vec sz cell v = Some v' \<and> scanInv sz v'"
proof (cases "cells v cell")
  case None
  then have "moveCell vec sz cell v = Some v" by (simp add: moveCell_def)
  with inv show ?thesis by blast
next
  case (Some tile)
  from inv have gs: "gridSound sz v" and tp: "tilesPlaced v" by (simp_all add: scanInv_def)
  from search obtain res where "findFarthestPosition cell vec (cells v) sz = Some res" by blast
  then obtain far nxt where f: "findFarthestPosition cell vec (cells v) sz = Some (far, nxt)"
    by (cases res) simp
  from slideTile_inv[OF gs tp Some findFarthest_farthest[OF f]] obtain vs where
    vs: "slideTile tile far cell sz v = Some vs" and vsi: "scanInv sz vs"
    unfolding scanInv_def by blast
  show ?thesis
  proof (cases nxt)
    case None
    with Some f vs have "moveCell vec sz cell v = Some vs" by (simp add: moveCell_def)
    with vsi show ?thesis by blast
  next
    case nx: (Some n)
    from f nx have f': "findFarthestPosition cell vec (cells v) sz = Some (far, Some n)" by simp
    from findFarthest_next[OF f'] obtain nextTile where
      nt: "cells v n = Some nextTile" and nin: "inBounds sz n" by blast
    show ?thesis
    proof (cases "val (store v ! nextTile) = val (store v ! tile) \<and> n \<notin> mergedPositions v")
      case True
      with Some f' nt have "moveCell vec sz cell v = Some (mergeTiles tile nextTile n v)"
        by (simp add: moveCell_def)
      moreover from mergeTiles_inv[OF gs tp nt nin, of tile]
      have "scanInv sz (mergeTiles tile nextTile n v)" by (simp add: scanInv_def)
      ultimately show ?thesis by blast
    next
      case False
      with Some f' nt vs have "moveCell vec sz cell v = Some vs" by (auto simp: moveCell_def)
      with vsi show ?thesis by blast
    qed
  qed
qed

lemma moveCells_inv:
  assumes "scanInv sz v"
  shows "\<exists>v'. moveCells (getVector d) sz cs v = Some v' \<and> scanInv sz v'"
  using assms
proof (induction cs arbitrary: v)
  case Nil
  then show ?case by simp
next
  case (Cons c cs)
  from moveCell_inv[OF Cons.prems findFarthest_terminates] obtain v1 where
    v1: "moveCell (getVector d) sz c v = Some v1" "scanInv sz v1" by blast
  from Cons.IH[OF v1(2)] v1(1) show ?case by simp
qed


lemma valid_clearFlags:
  "validState sz s \<Longrightarrow> distinct (map position (map clearFlags (tiles s)))"
  by (simp add: validState_def comp_def)

lemma moveScan_inv:
  assumes v: "validState sz s"
  shows "\<exists>v. moveScan s d sz = Some v \<and> scanInv sz v"
proof -
  let ?ts = "map clearFlags (tiles s)"
  from buildGrid_total[OF valid_rows[OF v]] obtain g where g0: "buildGrid (tiles s) sz = Some g"
    by blast
  then have g: "buildGrid ?ts sz = Some g" by (simp add: buildGrid_clearFlags)
  let ?v0 = "\<lparr>store = ?ts, stateTiles = [0..<length ?ts], cells = g, mergedPositions = {},
              stateScore = score s, stateComboCount = 0, stateWon = won s, moved = False\<rparr>"
  have "gridSound sz ?v0"
    unfolding gridSound_def
  proof (intro allI impI)
    fix p r assume "cells ?v0 p = Some r"
    then have gp: "g p = Some r" by simp
    from buildGrid_sound[OF g gp] have r: "r < length ?ts" "position (?ts ! r) = p" by auto
    from r(1) have "tiles s ! r \<in> set (tiles s)" by simp
    with v have "inBounds sz (position (tiles s ! r))" by (simp add: validState_def list_all_iff)
    with r show "r < length (store ?v0) \<and> position (store ?v0 ! r) = p \<and> inBounds sz p"
      by simp
  qed
  moreover have "tilesPlaced ?v0"
    unfolding tilesPlaced_def
  proof (intro conjI ballI)
    show "distinct (stateTiles ?v0)" by simp
  next
    fix r assume "r \<in> set (stateTiles ?v0)"
    then have r: "r < length ?ts" by simp
    from buildGrid_complete[OF g valid_clearFlags[OF v] r] r
    show "r < length (store ?v0)" "cells ?v0 (position (store ?v0 ! r)) = Some r" by simp_all
  qed
  ultimately have "scanInv sz ?v0" by (simp add: scanInv_def)
  from moveCells_inv[OF this, of d "traversalCells (getTraversals d sz)"] g
  show ?thesis by (simp add: moveScan_def Let_def)
qed

lemma scannedState_valid:
  assumes "scanInv sz v"
  shows "validState sz (scannedState s v)"
proof -
  from assms have gs: "gridSound sz v" and tp: "tilesPlaced v" by (simp_all add: scanInv_def)
  let ?f = "\<lambda>r. store v ! r"
  have tl: "tiles (scannedState s v) = map ?f (stateTiles v)"
    by (simp add: scannedState_def)
  have "\<forall>t \<in> set (map ?f (stateTiles v)). inBounds sz (position t)"
  proof
    fix t assume "t \<in> set (map ?f (stateTiles v))"
    then obtain r where r: "r \<in> set (stateTiles v)" and t: "t = ?f r" by auto
    from tilesPlacedD[OF tp r] have "cells v (position (?f r)) = Some r" by blast
    from gridSoundD[OF gs this] t show "inBounds sz (position t)" by blast
  qed
  then have a: "list_all (\<lambda>t. inBounds sz (position t)) (map ?f (stateTiles v))"
    unfolding list_all_iff .
  have inj: "inj_on (\<lambda>r. position (?f r)) (set (stateTiles v))"
  proof (rule inj_onI)
    fix a b assume a: "a \<in> set (stateTiles v)" and b: "b \<in> set (stateTiles v)"
      and e: "position (?f a) = position (?f b)"
    from tilesPlacedD[OF tp a] have "cells v (position (?f a)) = Some a" by blast
    moreover from tilesPlacedD[OF tp b] have "cells v (position (?f b)) = Some b" by blast
    ultimately have "Some a = Some b" unfolding e by (rule trans[OF sym])
    then show "a = b" by blast
  qed
  from tp have di: "distinct (stateTiles v)" unfolding tilesPlaced_def by blast
  have "map position (map ?f (stateTiles v)) = map (\<lambda>r. position (?f r)) (stateTiles v)"
    by (induction "stateTiles v") auto
  moreover have "distinct (map (\<lambda>r. position (?f r)) (stateTiles v))"
    unfolding distinct_map using di inj by blast
  ultimately have d: "distinct (map position (map ?f (stateTiles v)))" by metis
  show ?thesis unfolding validState_def tl using a d by blast
qed

subsection \<open>Valid engines\<close>

lemma validState_tiles:
  "tiles s' = tiles s \<Longrightarrow> validState sz s' = validState sz s"
  by (simp add: validState_def)

lemma emptyCells_free:
  assumes "cell \<in> set (emptyCells s sz)"
  shows "inBounds sz cell \<and> cell \<notin> set (map position (tiles s))"
proof -
  from assms have a: "cell \<in> set (allCells sz)"
    and b: "\<not> list_ex (\<lambda>t. row t = fst cell \<and> col t = snd cell) (tiles s)"
    by (simp_all add: emptyCells_def)
  from b have "\<forall>t \<in> set (tiles s). position t \<noteq> cell"
    by (auto simp: list_ex_iff position_def)
  with a show ?thesis by (auto simp: allCells_iff)
qed

lemma spawnTile_valid:
  assumes "validState sz s"
  shows "validState sz (fst (spawnTile s sz n pick small))"
proof (cases "emptyCells s sz = []")
  case True
  with assms show ?thesis by (simp add: spawnTile_def)
next
  case False
  let ?e = "emptyCells s sz"
  let ?cell = "?e ! (pick mod length ?e)"
  from False have "pick mod length ?e < length ?e" by simp
  then have "?cell \<in> set ?e" by (rule nth_mem)
  from emptyCells_free[OF this] have free: "inBounds sz ?cell" "?cell \<notin> set (map position (tiles s))"
    by blast+
  let ?new = "\<lparr>ident = n, val = (if small then 2 else 4), row = fst ?cell, col = snd ?cell,
               isNew = Some True, justMerged = None\<rparr>"
  have pn: "position ?new = ?cell" by (simp add: position_def)
  from False have sp: "tiles (fst (spawnTile s sz n pick small)) = tiles s @ [?new]"
    by (simp add: spawnTile_def Let_def)
  from assms free pn show ?thesis
    unfolding validState_def sp by simp
qed

lemma checkAvailableMoves_total:
  "validState sz s \<Longrightarrow> \<exists>b. checkAvailableMoves s sz = Some b"
  using buildGrid_total[OF valid_rows] by (fastforce simp: checkAvailableMoves_def)

lemma move_terminates:
  assumes "validState sz (state e)"
  shows "(\<exists>out. move e d sz n pick small st = Some out) \<and>
         (\<not> saveHighScoreThrows st \<and> \<not> loadStatsThrows st \<and> \<not> saveStatsThrows st \<longrightarrow>
            (\<exists>m e' n'. move e d sz n pick small st = Some (Inr m, e', n')))"
proof -
  from moveScan_inv[OF assms] obtain v where
    v: "moveScan (state e) d sz = Some v" and inv: "scanInv sz v" by blast
  let ?s1 = "scannedState (state e) v"
  note v1 = scannedState_valid[OF inv, of "state e"]
  show ?thesis
  proof (cases "moved v")
    case False
    with v have "move e d sz n pick small st = Some (Inr False, e\<lparr>state := ?s1\<rparr>, n)"
      by (simp add: move_def)
    then show ?thesis by blast
  next
    case True
    let ?sp = "spawnTile (?s1\<lparr>moves := moves ?s1 + 1\<rparr>) sz n pick small"
    have "validState sz (?s1\<lparr>moves := moves ?s1 + 1\<rparr>)"
      using v1 by (simp add: validState_def)
    from spawnTile_valid[OF this] have v2: "validState sz (fst ?sp)" .
    from checkAvailableMoves_total[OF v2] obtain b where
      b: "checkAvailableMoves (fst ?sp) sz = Some b" by blast
    from v True b show ?thesis
      by (auto simp: move_def Let_def split_beta)
  qed
qed

lemma move_keeps_valid:
  assumes va: "validState sz (state e)"
    and mv: "move e d sz n pick small st = Some (r, e', n')"
  shows "validState sz (state e')"
proof -
  from move_leaves[OF mv] obtain v where v: "moveScan (state e) d sz = Some v"
    and l: "if moved v
            then state e' =
                   fst (spawnTile ((scannedState (state e) v)
                          \<lparr>moves := moves (scannedState (state e) v) + 1\<rparr>) sz n pick small)
                 \<or> (state e' =
                       (fst (spawnTile ((scannedState (state e) v)
                          \<lparr>moves := moves (scannedState (state e) v) + 1\<rparr>) sz n pick small))
                       \<lparr>gameOver := True\<rparr>
                     \<and> checkAvailableMoves
                          (fst (spawnTile ((scannedState (state e) v)
                             \<lparr>moves := moves (scannedState (state e) v) + 1\<rparr>) sz n pick small))
                          sz = Some False)
            else state e' = scannedState (state e) v \<and> r = Inr False \<and> n' = n"
    by blast
  from moveScan_inv[OF va, of d] v have inv: "scanInv sz v" by simp
  let ?s1 = "scannedState (state e) v"
  let ?sp = "spawnTile (?s1\<lparr>moves := moves ?s1 + 1\<rparr>) sz n pick small"
  note v1 = scannedState_valid[OF inv, of "state e"]
  show ?thesis
  proof (cases "moved v")
    case False
    with l v1 show ?thesis by simp
  next
    case True
    have "validState sz (?s1\<lparr>moves := moves ?s1 + 1\<rparr>)"
      using v1 by (simp add: validState_def)
    from spawnTile_valid[OF this] have v2: "validState sz (fst ?sp)" .
    then have v3: "validState sz ((fst ?sp)\<lparr>gameOver := True\<rparr>)"
      by (simp add: validState_def)
    from True l have "state e' = fst ?sp \<or> state e' = (fst ?sp)\<lparr>gameOver := True\<rparr>"
      by auto
    with v2 v3 show ?thesis by auto
  qed
qed

lemma kept_subset:
  "set (if length (h @ [s]) > 10 then tl (h @ [s]) else h @ [s]) \<subseteq> set (h @ [s])"
  by (cases h) auto

lemma handleMove_leaves:
  assumes "handleMove e d sz n pick small st = Some (x, e', n')"
  shows "(gameOver (state e) \<and> x = None \<and> e' = e \<and> n' = n) \<or>
         (\<not> gameOver (state e) \<and>
          (\<exists>r e1. move e d sz n pick small st = Some (r, e1, n') \<and> state e' = state e1 \<and>
             undosRemaining e' = undosRemaining e1 \<and>
             (history e' = history e1 \<or>
              (r = Inr True \<and>
               history e' = (if length (history e1 @ [state e]) > 10
                             then tl (history e1 @ [state e]) else history e1 @ [state e])))))"
proof (cases "gameOver (state e)")
  case True
  with assms show ?thesis by (simp add: handleMove_def)
next
  case False
  show ?thesis
  proof (cases "move e d sz n pick small st")
    case None
    with assms False show ?thesis by (simp add: handleMove_def)
  next
    case (Some out)
    obtain r e1 n1 where out: "out = (r, e1, n1)" by (cases out)
    show ?thesis
    proof (cases r)
      case (Inl err)
      with assms False Some out show ?thesis by (auto simp: handleMove_def Let_def)
    next
      case (Inr m)
      with assms False Some out show ?thesis
        by (cases m) (auto simp: handleMove_def Let_def)
    qed
  qed
qed

lemma handleMove_terminates:
  assumes "validState sz (state e)"
  shows "(\<exists>out. handleMove e d sz n pick small st = Some out) \<and>
         (\<not> saveHighScoreThrows st \<and> \<not> loadStatsThrows st \<and> \<not> saveStatsThrows st \<longrightarrow>
            (\<exists>e' n'. handleMove e d sz n pick small st = Some (None, e', n')))"
proof (cases "gameOver (state e)")
  case True
  then show ?thesis by (simp add: handleMove_def)
next
  case False
  from move_terminates[OF assms, of d n pick small st] obtain r e1 n1 where
    mv: "move e d sz n pick small st = Some (r, e1, n1)"
    and q: "\<not> saveHighScoreThrows st \<and> \<not> loadStatsThrows st \<and> \<not> saveStatsThrows st \<longrightarrow>
            (\<exists>m. r = Inr m)"
    by auto
  show ?thesis
  proof (cases r)
    case (Inl err)
    with False mv q show ?thesis by (auto simp: handleMove_def Let_def)
  next
    case (Inr m)
    with False mv show ?thesis by (cases m) (auto simp: handleMove_def Let_def)
  qed
qed

lemma handleMove_valid:
  assumes ev: "engineValid sz e"
    and hm: "handleMove e d sz n pick small st = Some (x, e', n')"
  shows "engineValid sz e'"
proof -
  from ev have vs: "validState sz (state e)" and vh: "list_all (validState sz) (history e)"
    by (simp_all add: engineValid_def)
  from handleMove_leaves[OF hm] show ?thesis
  proof
    assume "gameOver (state e) \<and> x = None \<and> e' = e \<and> n' = n"
    with ev show ?thesis by simp
  next
    assume "\<not> gameOver (state e) \<and>
          (\<exists>r e1. move e d sz n pick small st = Some (r, e1, n') \<and> state e' = state e1 \<and>
             undosRemaining e' = undosRemaining e1 \<and>
             (history e' = history e1 \<or>
              (r = Inr True \<and>
               history e' = (if length (history e1 @ [state e]) > 10
                             then tl (history e1 @ [state e]) else history e1 @ [state e]))))"
    then obtain r e1 where mv: "move e d sz n pick small st = Some (r, e1, n')"
      and se: "state e' = state e1"
      and hi: "history e' = history e1 \<or>
               history e' = (if length (history e1 @ [state e]) > 10
                             then tl (history e1 @ [state e]) else history e1 @ [state e])"
      by blast
    from move_keeps_valid[OF vs mv] se have v1: "validState sz (state e')" by simp
    from move_keeps_engine_fields[OF mv] have h1: "history e1 = history e" by blast
    from hi have "set (history e') \<subseteq> set (history e @ [state e])"
      unfolding h1 using kept_subset[of "history e" "state e"] by auto
    with vs vh have "list_all (validState sz) (history e')"
      by (auto simp: list_all_iff)
    with v1 show ?thesis by (simp add: engineValid_def)
  qed
qed

lemma handleUndo_valid:
  assumes "engineValid sz e"
  shows "engineValid sz (handleUndo e)"
proof (cases "undosRemaining e > 0 \<and> length (history e) > 0")
  case False
  then have "handleUndo e = e" unfolding handleUndo_def by (simp only: if_False)
  with assms show ?thesis by simp
next
  case True
  then have ne: "history e \<noteq> []" by auto
  from assms have vh: "\<forall>s \<in> set (history e). validState sz s"
    by (simp add: engineValid_def list_all_iff)
  from ne have "last (history e) \<in> set (history e)" by simp
  with vh have a: "validState sz (last (history e))" by blast
  have "\<forall>s \<in> set (butlast (history e)). validState sz s"
    using vh by (meson in_set_butlastD)
  with a True show ?thesis by (simp add: handleUndo_def engineValid_def list_all_iff)
qed

lemma initGame_valid: "engineValid sz (fst (initGame sz pick1 small1 pick2 small2 saved))"
proof -
  have v0: "validState sz createEmptyState" by (simp add: validState_def createEmptyState_def)
  let ?sp1 = "spawnTile createEmptyState sz 0 pick1 small1"
  let ?sp2 = "spawnTile (fst ?sp1) sz (snd ?sp1) pick2 small2"
  from spawnTile_valid[OF v0] have "validState sz (fst ?sp1)" .
  from spawnTile_valid[OF this] have "validState sz (fst ?sp2)" .
  moreover have "fst (initGame sz pick1 small1 pick2 small2 saved) =
      \<lparr>state = fst ?sp2, history = [], undosRemaining = 3, highScore = saved\<rparr>"
    by (simp add: initGame_def Let_def split_beta)
  ultimately show ?thesis by (simp add: engineValid_def)
qed

lemma reachable_valid: "reachable sz x \<Longrightarrow> engineValid sz (fst x)"
proof (induction rule: reachable.induct)
  case (fresh pick1 small1 pick2 small2 saved)
  show ?case by (rule initGame_valid)
next
  case (handled e n d pick small st x e' n')
  from handleMove_valid[OF handled.IH[simplified] handled.hyps(2)]
  show ?case by simp
next
  case (moved e n d pick small st r e' n')
  from moved.IH have vs: "validState sz (state e)" and vh: "list_all (validState sz) (history e)"
    by (simp_all add: engineValid_def)
  from move_keeps_valid[OF vs moved.hyps(2)] move_keeps_engine_fields[OF moved.hyps(2)] vh
  show ?case by (simp add: engineValid_def)
next
  case (spawned e n pick small s' n')
  from spawned.IH have vs: "validState sz (state e)" and vh: "list_all (validState sz) (history e)"
    by (simp_all add: engineValid_def)
  from spawnTile_valid[OF vs, of n pick small] spawned.hyps(2) vh
  show ?case by (simp add: engineValid_def)
next
  case (undone e n)
  from handleUndo_valid[OF undone.IH[simplified]] show ?case by simp
qed

text \<open>
  Claim C8 (invariant): in every state reachable from a fresh engine by moves, spawns and
  undos, no two tiles have the same (row, col).
\<close>

theorem reachable_tiles_distinct:
  assumes "reachable sz (e, n)"
  shows "distinct (map position (tiles (state e)))"
  using reachable_valid[OF assms] by (simp add: engineValid_def validState_def)

theorem reachable_tiles_distinct_witness:
  "reachable 4 (snd (the (handleMove freshEngine Left 4 2 0 True quietStorage))) \<and>
   distinct (map position
     (tiles (state (fst (snd (the (handleMove freshEngine Left 4 2 0 True quietStorage)))))))"
proof -
  have i: "initGame 4 0 True 0 True 0 = (freshEngine, 2)" by code_simp
  have "reachable 4 (initGame 4 0 True 0 True 0)" by (rule reachable.fresh)
  with i have r0: "reachable 4 (freshEngine, 2)" by simp
  have "handleMove freshEngine Left 4 2 0 True quietStorage \<noteq> None" by code_simp
  then obtain x e' n' where h: "handleMove freshEngine Left 4 2 0 True quietStorage = Some (x, e', n')"
    by auto
  from reachable.handled[OF r0 h] have r: "reachable 4 (e', n')" .
  from reachable_tiles_distinct[OF r] r h show ?thesis by simp
qed

text \<open>
  Claim C9, as amended: the search of the farthest position returns for every position,
  direction, grid and size. On a valid state \<open>checkAvailableMoves\<close> returns, and
  \<open>move\<close> and \<open>handleMove\<close> end: no endless loop, no exception of the engine's own
  code. They end by returning when no call of the local storage throws. (A call of the
  storage that throws ends \<open>move\<close> and \<open>handleMove\<close> by its exception.) \<open>spawnTile\<close> and
  \<open>handleUndo\<close> have only bounded loops, no partial operation and no call of the storage:
  their models are total functions as they stand.
\<close>

theorem engine_operations_total:
  "(\<exists>res. findFarthestPosition p (getVector d) g sz = Some res) \<and>
   (validState sz (state e) \<longrightarrow>
      (\<exists>b. checkAvailableMoves (state e) sz = Some b) \<and>
      (\<exists>out. move e d sz n pick small st = Some out) \<and>
      (\<exists>out. handleMove e d sz n pick small st = Some out) \<and>
      (\<not> saveHighScoreThrows st \<and> \<not> loadStatsThrows st \<and> \<not> saveStatsThrows st \<longrightarrow>
         (\<exists>m e' n'. move e d sz n pick small st = Some (Inr m, e', n')) \<and>
         (\<exists>e' n'. handleMove e d sz n pick small st = Some (None, e', n'))))"
proof -
  have search: "\<exists>res. findFarthestPosition p (getVector d) g sz = Some res"
    by (rule findFarthest_terminates)
  have rest: "validState sz (state e) \<longrightarrow>
      (\<exists>b. checkAvailableMoves (state e) sz = Some b) \<and>
      (\<exists>out. move e d sz n pick small st = Some out) \<and>
      (\<exists>out. handleMove e d sz n pick small st = Some out) \<and>
      (\<not> saveHighScoreThrows st \<and> \<not> loadStatsThrows st \<and> \<not> saveStatsThrows st \<longrightarrow>
         (\<exists>m e' n'. move e d sz n pick small st = Some (Inr m, e', n')) \<and>
         (\<exists>e' n'. handleMove e d sz n pick small st = Some (None, e', n')))"
  proof
    assume v: "validState sz (state e)"
    from checkAvailableMoves_total[OF v] move_terminates[OF v, of d n pick small st]
      handleMove_terminates[OF v, of d n pick small st]
    show "(\<exists>b. checkAvailableMoves (state e) sz = Some b) \<and>
      (\<exists>out. move e d sz n pick small st = Some out) \<and>
      (\<exists>out. handleMove e d sz n pick small st = Some out) \<and>
      (\<not> saveHighScoreThrows st \<and> \<not> loadStatsThrows st \<and> \<not> saveStatsThrows st \<longrightarrow>
         (\<exists>m e' n'. move e d sz n pick small st = Some (Inr m, e', n')) \<and>
         (\<exists>e' n'. handleMove e d sz n pick small st = Some (None, e', n')))"
      by blast
  qed
  from search rest show ?thesis by blast
qed

theorem engine_operations_total_witness:
  "validState 4 (state freshEngine) \<and>
   \<not> saveHighScoreThrows quietStorage \<and> \<not> loadStatsThrows quietStorage \<and>
   \<not> saveStatsThrows quietStorage \<and>
   findFarthestPosition (0, 3) (getVector Left) Map.empty 4 \<noteq> None \<and>
   checkAvailableMoves (state freshEngine) 4 \<noteq> None \<and>
   (\<exists>m e' n'. move freshEngine Left 4 2 0 True quietStorage = Some (Inr m, e', n')) \<and>
   (\<exists>e' n'. handleMove freshEngine Left 4 2 0 True quietStorage = Some (None, e', n')) \<and>
   move freshEngine Left 4 2 0 True noSpaceStorage \<noteq> None"
proof -
  have v: "validState 4 (state freshEngine)" by code_simp
  have q: "\<not> saveHighScoreThrows quietStorage \<and> \<not> loadStatsThrows quietStorage \<and>
           \<not> saveStatsThrows quietStorage" by code_simp
  from engine_operations_total[of "(0, 3)" Left Map.empty 4 freshEngine 2 0 True quietStorage] v q
  have a: "findFarthestPosition (0, 3) (getVector Left) Map.empty 4 \<noteq> None \<and>
   checkAvailableMoves (state freshEngine) 4 \<noteq> None \<and>
   (\<exists>m e' n'. move freshEngine Left 4 2 0 True quietStorage = Some (Inr m, e', n')) \<and>
   (\<exists>e' n'. handleMove freshEngine Left 4 2 0 True quietStorage = Some (None, e', n'))"
    by auto
  from engine_operations_total[of "(0, 3)" Left Map.empty 4 freshEngine 2 0 True noSpaceStorage] v
  have b: "move freshEngine Left 4 2 0 True noSpaceStorage \<noteq> None" by auto
  from v q a b show ?thesis by blast
qed

text \<open>
  The claim as stated, that \<open>move\<close> is a total function on valid inputs, fails when the
  storage throws. On the first move of a fresh game that merges the two tiles, the score
  passes the high score and \<open>saveHighScore\<close> is called: when \<open>setItem\<close> throws, \<open>move\<close> is
  left by the exception, after the tiles have moved, a tile has been spawned and the high
  score has been raised. On the move that fills the board, \<open>loadStats\<close> is called: when
  the stored statistics do not parse, \<open>move\<close> and \<open>handleMove\<close> are left by the exception.
\<close>

theorem storage_exception_leaves_move:
  "initGame 4 0 True 0 True 0 = (freshEngine, 2) \<and>
   validState 4 (state freshEngine) \<and>
   move freshEngine Left 4 2 0 True noSpaceStorage =
     Some (Inl StorageError,
           \<lparr>state = \<lparr>tiles = [\<lparr>ident = 0, val = 4, row = 0, col = 0,
                                isNew = None, justMerged = Some True\<rparr>,
                               \<lparr>ident = 2, val = 2, row = 0, col = 1,
                                isNew = Some True, justMerged = None\<rparr>],
                      score = 4, moves = 1, comboCount = 1, gameOver = False, won = False\<rparr>,
             history = [], undosRemaining = 3, highScore = 4\<rparr>, 3) \<and>
   validState 4 (state lastMoveEngine) \<and>
   move lastMoveEngine Left 4 15 0 True corruptStatsStorage \<noteq> None \<and>
   fst (the (move lastMoveEngine Left 4 15 0 True corruptStatsStorage)) = Inl StorageError \<and>
   fst (the (handleMove lastMoveEngine Left 4 15 0 True corruptStatsStorage)) = Some StorageError"
  by code_simp

subsection \<open>What the merges add\<close>










lemma spawnTile_keeps:
  "score (fst (spawnTile s sz n pick small)) = score s \<and>
   won (fst (spawnTile s sz n pick small)) = won s \<and>
   gameOver (fst (spawnTile s sz n pick small)) = gameOver s \<and>
   comboCount (fst (spawnTile s sz n pick small)) = comboCount s"
  by (simp add: spawnTile_def Let_def)





subsection \<open>The end of the game\<close>

lemma dead_right:
  assumes dead: "checkCells ts g sz (allCells sz) = False"
    and p: "g p = Some i" and q: "g (fst p, snd p + 1) = Some j"
    and pin: "inBounds sz p" and qin: "inBounds sz (fst p, snd p + 1)"
  shows "val (ts ! i) \<noteq> val (ts ! j)"
proof -
  from pin have "p \<in> set (allCells sz)" by (simp add: allCells_iff)
  from checkCells_False[OF dead this] p have
    "snd p < int sz - 1 \<longrightarrow>
       map_option (\<lambda>r. val (ts ! r)) (g (fst p, snd p + 1)) \<noteq> Some (val (ts ! i))"
    by auto
  moreover from qin have "snd p < int sz - 1" by (simp add: inBounds_def)
  ultimately show ?thesis using q by auto
qed

lemma dead_down:
  assumes dead: "checkCells ts g sz (allCells sz) = False"
    and p: "g p = Some i" and q: "g (fst p + 1, snd p) = Some j"
    and pin: "inBounds sz p" and qin: "inBounds sz (fst p + 1, snd p)"
  shows "val (ts ! i) \<noteq> val (ts ! j)"
proof -
  from pin have "p \<in> set (allCells sz)" by (simp add: allCells_iff)
  from checkCells_False[OF dead this] p have
    "fst p < int sz - 1 \<longrightarrow>
       map_option (\<lambda>r. val (ts ! r)) (g (fst p + 1, snd p)) \<noteq> Some (val (ts ! i))"
    by auto
  moreover from qin have "fst p < int sz - 1" by (simp add: inBounds_def)
  ultimately show ?thesis using q by auto
qed

lemma dead_state:
  assumes v: "validState sz s" and c: "checkAvailableMoves s sz = Some False"
  shows "boardFull sz s \<and> noEqualNeighbours s"
proof -
  let ?ts = "tiles s"
  from c obtain g where g: "buildGrid ?ts sz = Some g"
    and dead: "checkCells ?ts g sz (allCells sz) = False"
    by (auto simp: checkAvailableMoves_def split: option.splits)
  from v have di: "distinct (map position ?ts)"
    and inb: "\<And>t. t \<in> set ?ts \<Longrightarrow> inBounds sz (position t)"
    by (simp_all add: validState_def list_all_iff)
  have full: "boardFull sz s"
    unfolding boardFull_def list_all_iff
  proof
    fix cell assume cell: "cell \<in> set (allCells sz)"
    from checkCells_False[OF dead cell] obtain i where i: "g cell = Some i" by blast
    from buildGrid_sound[OF g i] have "i < length ?ts" "position (?ts ! i) = cell" by auto
    then have "\<exists>t \<in> set ?ts. position t = cell" by (metis nth_mem)
    then show "occupied s cell" by (simp add: occupied_def list_ex_iff)
  qed
  have neq: "\<And>t u. t \<in> set ?ts \<Longrightarrow> u \<in> set ?ts \<Longrightarrow> adjacent (position t) (position u) \<Longrightarrow>
               val t \<noteq> val u"
  proof -
    fix t u assume t: "t \<in> set ?ts" and u: "u \<in> set ?ts"
      and adj: "adjacent (position t) (position u)"
    from t obtain i where i: "i < length ?ts" "?ts ! i = t" by (auto simp: in_set_conv_nth)
    from u obtain j where j: "j < length ?ts" "?ts ! j = u" by (auto simp: in_set_conv_nth)
    from buildGrid_complete[OF g di i(1)] i(2) have gi: "g (position t) = Some i" by simp
    from buildGrid_complete[OF g di j(1)] j(2) have gj: "g (position u) = Some j" by simp
    note ti = inb[OF t] and ui = inb[OF u]
    let ?p = "position t" and ?q = "position u"
    from adj consider
      (right) "?q = (fst ?p, snd ?p + 1)" | (left) "?p = (fst ?q, snd ?q + 1)"
      | (down) "?q = (fst ?p + 1, snd ?p)" | (up) "?p = (fst ?q + 1, snd ?q)"
      unfolding adjacent_def by (metis prod.collapse)
    then show "val t \<noteq> val u"
    proof cases
      case right
      from dead_right[OF dead gi gj[unfolded right] ti ui[unfolded right]] i j show ?thesis by simp
    next
      case left
      from dead_right[OF dead gj gi[unfolded left] ui ti[unfolded left]] i j show ?thesis by simp
    next
      case down
      from dead_down[OF dead gi gj[unfolded down] ti ui[unfolded down]] i j show ?thesis by simp
    next
      case up
      from dead_down[OF dead gj gi[unfolded up] ui ti[unfolded up]] i j show ?thesis by simp
    qed
  qed
  then have "noEqualNeighbours s"
    unfolding noEqualNeighbours_def list_all_iff by blast
  with full show ?thesis by blast
qed

lemma move_gameOver:
  assumes v: "validState sz (state e)"
    and mv: "move e d sz n pick small st = Some (r, e', n')"
  shows "(gameOver (state e) \<longrightarrow> gameOver (state e')) \<and>
         (\<not> gameOver (state e) \<and> gameOver (state e') \<longrightarrow>
            boardFull sz (state e') \<and> noEqualNeighbours (state e'))"
proof -
  from move_leaves[OF mv] obtain vv where sc: "moveScan (state e) d sz = Some vv"
    and l: "if moved vv
            then state e' =
                   fst (spawnTile ((scannedState (state e) vv)
                          \<lparr>moves := moves (scannedState (state e) vv) + 1\<rparr>) sz n pick small)
                 \<or> (state e' =
                       (fst (spawnTile ((scannedState (state e) vv)
                          \<lparr>moves := moves (scannedState (state e) vv) + 1\<rparr>) sz n pick small))
                       \<lparr>gameOver := True\<rparr>
                     \<and> checkAvailableMoves
                          (fst (spawnTile ((scannedState (state e) vv)
                             \<lparr>moves := moves (scannedState (state e) vv) + 1\<rparr>) sz n pick small))
                          sz = Some False)
            else state e' = scannedState (state e) vv \<and> r = Inr False \<and> n' = n"
    by blast
  from moveScan_inv[OF v, of d] sc have inv: "scanInv sz vv" by simp
  let ?s1 = "scannedState (state e) vv"
  let ?sp = "spawnTile (?s1\<lparr>moves := moves ?s1 + 1\<rparr>) sz n pick small"
  have g1: "gameOver ?s1 = gameOver (state e)" by (simp add: scannedState_def)
  show ?thesis
  proof (cases "moved vv")
    case False
    with l g1 show ?thesis by simp
  next
    case True
    have "validState sz (?s1\<lparr>moves := moves ?s1 + 1\<rparr>)"
      using scannedState_valid[OF inv, of "state e"] by (simp add: validState_def)
    from spawnTile_valid[OF this] have v2: "validState sz (fst ?sp)" .
    have g2: "gameOver (fst ?sp) = gameOver (state e)"
      using spawnTile_keeps[of "?s1\<lparr>moves := moves ?s1 + 1\<rparr>" sz n pick small] g1 by simp
    from True l have "state e' = fst ?sp \<or>
        (state e' = (fst ?sp)\<lparr>gameOver := True\<rparr> \<and> checkAvailableMoves (fst ?sp) sz = Some False)"
      by simp
    then show ?thesis
    proof
      assume "state e' = fst ?sp"
      with g2 show ?thesis by simp
    next
      assume a: "state e' = (fst ?sp)\<lparr>gameOver := True\<rparr> \<and>
                 checkAvailableMoves (fst ?sp) sz = Some False"
      with dead_state[OF v2] have "boardFull sz (fst ?sp)" "noEqualNeighbours (fst ?sp)"
        by simp_all
      then have "boardFull sz ((fst ?sp)\<lparr>gameOver := True\<rparr>)"
        "noEqualNeighbours ((fst ?sp)\<lparr>gameOver := True\<rparr>)"
        by (simp_all add: boardFull_def noEqualNeighbours_def occupied_def[abs_def])
      with a show ?thesis by simp
    qed
  qed
qed

text \<open>On a full board without equal neighbours nothing can move, and nothing is spawned.\<close>

lemma dead_cannotMove:
  assumes v: "validState sz s" and f: "boardFull sz s" and q: "noEqualNeighbours s"
  shows "cannotMove sz d s"
  unfolding cannotMove_def list_all_iff
proof
  fix t assume t: "t \<in> set (tiles s)"
  show "\<not> inBounds sz (ahead d (position t)) \<or>
        list_ex (\<lambda>u. position u = ahead d (position t) \<and> val u \<noteq> val t) (tiles s)"
  proof (cases "inBounds sz (ahead d (position t))")
    case False
    then show ?thesis by simp
  next
    case True
    then have "ahead d (position t) \<in> set (allCells sz)" by (simp add: allCells_iff)
    with f have "occupied s (ahead d (position t))" by (simp add: boardFull_def list_all_iff)
    then obtain u where u: "u \<in> set (tiles s)" "position u = ahead d (position t)"
      by (auto simp: occupied_def list_ex_iff)
    have "adjacent (position t) (position u)"
      unfolding u(2) by (cases d) (simp_all add: ahead_def adjacent_def)
    with q t u(1) have "val t \<noteq> val u"
      by (auto simp: noEqualNeighbours_def list_all_iff)
    with u show ?thesis by (auto simp: list_ex_iff)
  qed
qed

lemma cannotMove_move:
  assumes "validState sz (state e)" and "cannotMove sz d (state e)"
  shows "move e d sz n pick small st =
           Some (Inr False, e\<lparr>state := rejectedState (state e)\<rparr>, n)"
proof -
  from buildGrid_total[OF valid_rows[OF assms(1)]] obtain g where
    g: "buildGrid (tiles (state e)) sz = Some g" by blast
  show ?thesis
    by (rule move_blocked[OF g]) (rule cannotMove_blocked[OF assms g])
qed

lemma rejectedState_dead:
  "boardFull sz (rejectedState s) = boardFull sz s"
  "noEqualNeighbours (rejectedState s) = noEqualNeighbours s"
  "gameOver (rejectedState s) = gameOver s"
  by (simp_all add: rejectedState_def boardFull_def noEqualNeighbours_def occupied_def[abs_def]
        list_all_iff list_ex_iff)

lemma boardFull_spawn:
  assumes "boardFull sz s"
  shows "spawnTile s sz n pick small = (s, n)"
proof -
  have "emptyCells s sz = []"
    unfolding emptyCells_def filter_empty_conv
  proof
    fix cell assume "cell \<in> set (allCells sz)"
    with assms have "occupied s cell" by (simp add: boardFull_def list_all_iff)
    then obtain t where "t \<in> set (tiles s)" "position t = cell"
      by (auto simp: occupied_def list_ex_iff)
    then have "list_ex (\<lambda>t. row t = fst cell \<and> col t = snd cell) (tiles s)"
      by (auto simp: list_ex_iff position_def)
    then show "\<not> \<not> list_ex (\<lambda>t. row t = fst cell \<and> col t = snd cell) (tiles s)" by simp
  qed
  then show ?thesis by (simp add: spawnTile_def)
qed

text \<open>The invariant of \<open>gameOver\<close> through the operations, and through a game.\<close>

lemma move_gameOverSound:
  assumes v: "validState sz (state e)" and g: "gameOverSound sz e"
    and mv: "move e d sz n pick small st = Some (r, e', n')"
  shows "gameOverSound sz e' \<and> (gameOver (state e) \<longrightarrow> gameOver (state e'))"
proof -
  from move_keeps_engine_fields[OF mv] g have hi: "list_all (\<lambda>s. \<not> gameOver s) (history e')"
    by (simp add: gameOverSound_def)
  show ?thesis
  proof (cases "gameOver (state e)")
    case False
    with move_gameOver[OF v mv] hi show ?thesis by (simp add: gameOverSound_def)
  next
    case True
    with g have f: "boardFull sz (state e)" and q: "noEqualNeighbours (state e)"
      by (simp_all add: gameOverSound_def)
    from cannotMove_move[OF v dead_cannotMove[OF v f q], of d n pick small st] mv
    have "e' = e\<lparr>state := rejectedState (state e)\<rparr>" by simp
    with True f q hi show ?thesis by (simp add: gameOverSound_def rejectedState_dead)
  qed
qed

lemma handleMove_gameOverSound:
  assumes v: "validState sz (state e)" and g: "gameOverSound sz e"
    and hm: "handleMove e d sz n pick small st = Some (x, e', n')"
  shows "gameOverSound sz e' \<and> (gameOver (state e) \<longrightarrow> gameOver (state e'))"
proof -
  from handleMove_leaves[OF hm] show ?thesis
  proof
    assume "gameOver (state e) \<and> x = None \<and> e' = e \<and> n' = n"
    with g show ?thesis by simp
  next
    assume a: "\<not> gameOver (state e) \<and>
          (\<exists>r e1. move e d sz n pick small st = Some (r, e1, n') \<and> state e' = state e1 \<and>
             undosRemaining e' = undosRemaining e1 \<and>
             (history e' = history e1 \<or>
              (r = Inr True \<and>
               history e' = (if length (history e1 @ [state e]) > 10
                             then tl (history e1 @ [state e]) else history e1 @ [state e]))))"
    then have ng: "\<not> gameOver (state e)" by blast
    from a obtain r e1 where mv: "move e d sz n pick small st = Some (r, e1, n')"
      and se: "state e' = state e1"
      and hi: "history e' = history e1 \<or>
               history e' = (if length (history e1 @ [state e]) > 10
                             then tl (history e1 @ [state e]) else history e1 @ [state e])"
      by blast
    from move_gameOverSound[OF v g mv] have g1: "gameOverSound sz e1" by blast
    from move_keeps_engine_fields[OF mv] have h1: "history e1 = history e" by blast
    from hi have "set (history e') \<subseteq> set (history e @ [state e])"
      unfolding h1 using kept_subset[of "history e" "state e"] by auto
    moreover from g have "\<forall>s \<in> set (history e). \<not> gameOver s"
      by (simp add: gameOverSound_def list_all_iff)
    ultimately have "\<forall>s \<in> set (history e'). \<not> gameOver s" using ng by auto
    with g1 se ng show ?thesis by (simp add: gameOverSound_def list_all_iff)
  qed
qed

lemma handleUndo_gameOver:
  assumes "gameOverSound sz e"
  shows "gameOverSound sz (handleUndo e) \<and>
         gameOver (state (handleUndo e)) =
           (gameOver (state e) \<and> \<not> (undosRemaining e > 0 \<and> length (history e) > 0))"
proof (cases "undosRemaining e > 0 \<and> length (history e) > 0")
  case False
  then have "handleUndo e = e" unfolding handleUndo_def by (simp only: if_False)
  with assms False show ?thesis by simp
next
  case True
  then have ne: "history e \<noteq> []" by auto
  from assms have hs: "\<forall>s \<in> set (history e). \<not> gameOver s"
    by (simp add: gameOverSound_def list_all_iff)
  from ne have "last (history e) \<in> set (history e)" by simp
  with hs have a: "\<not> gameOver (last (history e))" by blast
  have "\<forall>s \<in> set (butlast (history e)). \<not> gameOver s"
    using hs by (meson in_set_butlastD)
  with a True show ?thesis by (simp add: handleUndo_def gameOverSound_def list_all_iff)
qed

lemma initGame_gameOverSound:
  "gameOverSound sz (fst (initGame sz pick1 small1 pick2 small2 saved))"
proof -
  let ?sp1 = "spawnTile createEmptyState sz 0 pick1 small1"
  let ?sp2 = "spawnTile (fst ?sp1) sz (snd ?sp1) pick2 small2"
  have "\<not> gameOver (fst ?sp2)"
    using spawnTile_keeps[of "fst ?sp1" sz "snd ?sp1" pick2 small2]
      spawnTile_keeps[of createEmptyState sz 0 pick1 small1]
    by (simp add: createEmptyState_def)
  moreover have "fst (initGame sz pick1 small1 pick2 small2 saved) =
      \<lparr>state = fst ?sp2, history = [], undosRemaining = 3, highScore = saved\<rparr>"
    by (simp add: initGame_def Let_def split_beta)
  ultimately show ?thesis by (simp add: gameOverSound_def)
qed

lemma reachable_gameOverSound: "reachable sz x \<Longrightarrow> gameOverSound sz (fst x)"
proof (induction rule: reachable.induct)
  case (fresh pick1 small1 pick2 small2 saved)
  show ?case by (rule initGame_gameOverSound)
next
  case (handled e n d pick small st x e' n')
  from reachable_valid[OF handled.hyps(1)] have "validState sz (state e)"
    by (simp add: engineValid_def)
  from handleMove_gameOverSound[OF this handled.IH[simplified] handled.hyps(2)]
  show ?case by simp
next
  case (moved e n d pick small st r e' n')
  from reachable_valid[OF moved.hyps(1)] have "validState sz (state e)"
    by (simp add: engineValid_def)
  from move_gameOverSound[OF this moved.IH[simplified] moved.hyps(2)]
  show ?case by simp
next
  case (spawned e n pick small s' n')
  from spawned.IH have g: "gameOverSound sz e" by simp
  show ?case
  proof (cases "gameOver (state e)")
    case True
    with g have "boardFull sz (state e)" by (simp add: gameOverSound_def)
    from boardFull_spawn[OF this, of n pick small] spawned.hyps(2) have "s' = state e" by simp
    with g show ?thesis by (simp add: gameOverSound_def)
  next
    case False
    with spawnTile_keeps[of "state e" sz n pick small] spawned.hyps(2)
    have "\<not> gameOver s'" by simp
    with g show ?thesis by (simp add: gameOverSound_def)
  qed
next
  case (undone e n)
  from handleUndo_gameOver[OF undone.IH[simplified]] show ?case by simp
qed

lemma playMoves_reachable:
  "reachable sz game \<Longrightarrow> playMoves sz st game commands = Some game' \<Longrightarrow> reachable sz game'"
proof (induction commands arbitrary: game)
  case Nil
  then show ?case by simp
next
  case (Cons c cs)
  from Cons.prems(2) obtain x e' n' where
    h: "handleMove (fst game) (fst c) sz (snd game) (fst (snd c)) (snd (snd c)) st = Some (x, e', n')"
    and rest: "playMoves sz st (e', n') cs = Some game'"
    by (auto split: option.splits)
  from Cons.prems(1) have "reachable sz (fst game, snd game)" by simp
  from reachable.handled[OF this h] have "reachable sz (e', n')" .
  from Cons.IH[OF this rest] show ?case .
qed

text \<open>
  Claim C6, as amended: in every engine reachable in a game, \<open>gameOver\<close> is true only
  when the board has a tile in every cell and no two adjacent tiles of equal value, and no
  snapshot of the history has \<open>gameOver\<close>. No \<open>handleMove\<close> and no \<open>move\<close> turns it from
  true to false. \<open>handleUndo\<close> turns it to false whenever it restores a snapshot.
\<close>

theorem gameOver_only_on_dead_board:
  assumes "reachable sz (e, n)"
  shows "(gameOver (state e) \<longrightarrow> boardFull sz (state e) \<and> noEqualNeighbours (state e)) \<and>
         (\<forall>s \<in> set (history e). \<not> gameOver s) \<and>
         (handleMove e d sz n pick small st = Some (x, e', n') \<longrightarrow>
            gameOver (state e) \<longrightarrow> gameOver (state e')) \<and>
         (move e d sz n pick small st = Some (r, e1, n1) \<longrightarrow>
            gameOver (state e) \<longrightarrow> gameOver (state e1)) \<and>
         gameOver (state (handleUndo e)) =
           (gameOver (state e) \<and> \<not> (undosRemaining e > 0 \<and> length (history e) > 0))"
proof -
  from reachable_gameOverSound[OF assms] have g: "gameOverSound sz e" by simp
  from reachable_valid[OF assms] have v: "validState sz (state e)" by (simp add: engineValid_def)
  from g have a: "gameOver (state e) \<longrightarrow> boardFull sz (state e) \<and> noEqualNeighbours (state e)"
    and b: "\<forall>s \<in> set (history e). \<not> gameOver s"
    by (simp_all add: gameOverSound_def list_all_iff)
  have c: "handleMove e d sz n pick small st = Some (x, e', n') \<longrightarrow>
            gameOver (state e) \<longrightarrow> gameOver (state e')"
    using handleMove_gameOverSound[OF v g] by blast
  have m: "move e d sz n pick small st = Some (r, e1, n1) \<longrightarrow>
            gameOver (state e) \<longrightarrow> gameOver (state e1)"
    using move_gameOverSound[OF v g] by blast
  from handleUndo_gameOver[OF g] have u: "gameOver (state (handleUndo e)) =
           (gameOver (state e) \<and> \<not> (undosRemaining e > 0 \<and> length (history e) > 0))"
    by blast
  from a b c m u show ?thesis by blast
qed

theorem gameOver_witness:
  "fullGameEnd \<noteq> None \<and>
   reachable 4 (the fullGameEnd) \<and>
   gameOver (state (fst (the fullGameEnd))) \<and>
   boardFull 4 (state (fst (the fullGameEnd))) \<and>
   noEqualNeighbours (state (fst (the fullGameEnd))) \<and>
   \<not> gameOver (state (handleUndo (fst (the fullGameEnd))))"
proof -
  have ne: "fullGameEnd \<noteq> None" by code_simp
  then obtain game where en: "fullGameEnd = Some game" by auto
  have "reachable 4 (initGame 4 7 False 0 False 0)" by (rule reachable.fresh)
  from playMoves_reachable[OF this en[unfolded fullGameEnd_def]] have "reachable 4 game" .
  then have r: "reachable 4 (fst (the fullGameEnd), snd (the fullGameEnd))"
    unfolding en by simp
  have go: "gameOver (state (fst (the fullGameEnd)))" by code_simp
  have un: "undosRemaining (fst (the fullGameEnd)) > 0 \<and>
            length (history (fst (the fullGameEnd))) > 0"
    by code_simp
  from gameOver_only_on_dead_board[OF r] go un
  have "boardFull 4 (state (fst (the fullGameEnd))) \<and>
        noEqualNeighbours (state (fst (the fullGameEnd))) \<and>
        \<not> gameOver (state (handleUndo (fst (the fullGameEnd))))"
    by blast
  with ne r go show ?thesis by simp
qed

text \<open>
  The claim as stated, that \<open>gameOver\<close> is never reset within a game, fails: the move
  that fills the board ends the game, and the undo of that move restores the snapshot
  taken before it, where \<open>gameOver\<close> is false.
\<close>

theorem undo_resets_gameOver:
  "validState 4 (state lastMoveEngine) \<and>
   \<not> gameOver (state lastMoveEngine) \<and>
   handleMove lastMoveEngine Left 4 15 0 True quietStorage \<noteq> None \<and>
   gameOver (state (fst (snd (the (handleMove lastMoveEngine Left 4 15 0 True quietStorage))))) \<and>
   \<not> gameOver (state (handleUndo
        (fst (snd (the (handleMove lastMoveEngine Left 4 15 0 True quietStorage))))))"
  by code_simp

subsection \<open>Merges along a row\<close>

text \<open>
  Claim C1 (conservation: every merge replaces two tiles of value v by one tile of value
  2v, so the sum of the values grows by v and the number of tiles falls by one). The code
  does not do this. On the row 2 2 2 moved left, the tile of column 1 merges into column
  0; the merge branch never clears the cell the moving tile leaves, so the tile of column
  2 finds the departed tile of column 1 in the grid and merges into it: it is removed
  from the tiles, and the merged tile replaces nothing. Two merges are counted, the three
  tiles of sum 6 become one tile of value 4, where the claim gives 6 + 2 + 2 = 10.
\<close>

theorem three_twos_left_loses_mass:
  "sum_list (map val (tiles threeTwos)) = 6 \<and>
   scanOutcome threeTwos Left 4 =
     Some (True, \<lparr>tiles = [\<lparr>ident = 0, val = 4, row = 0, col = 0, isNew = None,
                             justMerged = Some True\<rparr>],
                  score = 8, moves = 0, comboCount = 2, gameOver = False, won = False\<rparr>)"
  by code_simp

text \<open>
  Claim C2 (the row 2 2 2 2 moved left gives the tiles 4 4 at (0,0) and (0,1), with
  comboCount 2). The code gives one tile of value 4 at (0,0), comboCount 3 and score 12:
  the tiles of columns 2 and 3 each merge into the tile that has just left the cell
  before them.
\<close>

theorem four_twos_left_one_tile:
  "scanOutcome fourTwos Left 4 =
     Some (True, \<lparr>tiles = [\<lparr>ident = 0, val = 4, row = 0, col = 0, isNew = None,
                             justMerged = Some True\<rparr>],
                  score = 12, moves = 0, comboCount = 3, gameOver = False, won = False\<rparr>)"
  by code_simp

text \<open>
  Claim C10 (the score of a call of \<open>move\<close> grows by the sum of the values of the tiles
  created by its merges). The code does not do this. After one move of a fresh game the
  board has the row 2 2 2; moved left, the tile of column 1 merges into column 0 and the
  tile of column 2 merges into the departed tile of column 1, whose merged tile is never
  stored in the tiles. The score grows from 0 to 8 and two merges are counted, while the
  one tile the merges have created, the only tile with \<open>justMerged\<close>, has value 4.
\<close>

theorem row_of_twos_score_exceeds_merged_tiles:
  "rowOfTwosGame \<noteq> None \<and>
   reachable 4 (the rowOfTwosGame) \<and>
   map val (tiles (state (fst (the rowOfTwosGame)))) = [2, 2, 2] \<and>
   map position (tiles (state (fst (the rowOfTwosGame)))) = [(0, 0), (0, 1), (0, 2)] \<and>
   score (state (fst (the rowOfTwosGame))) = 0 \<and>
   move (fst (the rowOfTwosGame)) Left 4 (snd (the rowOfTwosGame)) 0 True quietStorage =
     Some (Inr True,
           (fst (the rowOfTwosGame))
             \<lparr>state :=
                \<lparr>tiles = [\<lparr>ident = 0, val = 4, row = 0, col = 0, isNew = None,
                            justMerged = Some True\<rparr>,
                          \<lparr>ident = 3, val = 2, row = 0, col = 1, isNew = Some True,
                            justMerged = None\<rparr>],
                 score = 8, moves = 2, comboCount = 2, gameOver = False, won = False\<rparr>,
              highScore := 8\<rparr>,
           4) \<and>
   sum_list (map val (justMergedTiles (state (fst (snd (the
     (move (fst (the rowOfTwosGame)) Left 4 (snd (the rowOfTwosGame)) 0 True
        quietStorage))))))) = 4"
proof -
  have ne: "rowOfTwosGame \<noteq> None" by code_simp
  then obtain game where en: "rowOfTwosGame = Some game" by auto
  have "reachable 4 (initGame 4 4 True 4 True 0)" by (rule reachable.fresh)
  from playMoves_reachable[OF this en[unfolded rowOfTwosGame_def]] have "reachable 4 game" .
  then have r: "reachable 4 (the rowOfTwosGame)" unfolding en by simp
  have a: "map val (tiles (state (fst (the rowOfTwosGame)))) = [2, 2, 2]" by code_simp
  have b: "map position (tiles (state (fst (the rowOfTwosGame)))) = [(0, 0), (0, 1), (0, 2)]"
    by code_simp
  have c: "score (state (fst (the rowOfTwosGame))) = 0" by code_simp
  have d: "move (fst (the rowOfTwosGame)) Left 4 (snd (the rowOfTwosGame)) 0 True quietStorage =
     Some (Inr True,
           (fst (the rowOfTwosGame))
             \<lparr>state :=
                \<lparr>tiles = [\<lparr>ident = 0, val = 4, row = 0, col = 0, isNew = None,
                            justMerged = Some True\<rparr>,
                          \<lparr>ident = 3, val = 2, row = 0, col = 1, isNew = Some True,
                            justMerged = None\<rparr>],
                 score = 8, moves = 2, comboCount = 2, gameOver = False, won = False\<rparr>,
              highScore := 8\<rparr>,
           4)"
    by code_simp
  have f: "sum_list (map val (justMergedTiles (state (fst (snd (the
     (move (fst (the rowOfTwosGame)) Left 4 (snd (the rowOfTwosGame)) 0 True
        quietStorage))))))) = 4"
    by code_simp
  show ?thesis
    apply (intro conjI)
          apply (rule ne)
         apply (rule r)
        apply (rule a)
       apply (rule b)
      apply (rule c)
     apply (rule d)
    apply (rule f)
    done
qed

end
